theory Spec2Isabelle
  imports Main "HOL-Library.Word"
begin

unbundle bit_operations_syntax

section \<open>Data model\<close>

text \<open>
  The codec of \<^verbatim>\<open>src/base32.c\<close> works on Lua strings, which are byte
  sequences: a byte is the C type \<^verbatim>\<open>uint8_t\<close>, the decoder's accumulator a
  \<^verbatim>\<open>uint64_t\<close> and the accumulator of the encoder's tail a \<^verbatim>\<open>uint32_t\<close>.
  Lengths, indices and bit counts (\<^verbatim>\<open>size_t len\<close>, \<^verbatim>\<open>size_t i\<close>,
  \<^verbatim>\<open>int nbits\<close>, \<^verbatim>\<open>int npad\<close>) are natural numbers: a length is that of a
  string held in memory, \<^verbatim>\<open>nbits\<close> stays below 45 and \<^verbatim>\<open>npad\<close> below 8,
  so none of them wraps.
\<close>

type_synonym uint8 = "8 word"
type_synonym uint32 = "32 word"
type_synonym uint64 = "64 word"
type_synonym bytes = "uint8 list"

text \<open>The bytes of a string literal, to write inputs and outputs as text.\<close>

definition bytes_of :: "string \<Rightarrow> bytes" where
  "bytes_of s = map (\<lambda>c. of_nat (of_char c)) s"

text \<open>
  The second argument, checked by \<^verbatim>\<open>luaL_checkoption\<close> against
  \<^verbatim>\<open>{"rfc", "crockford"}\<close>: option 0 is the RFC 4648 (standard) alphabet, option 1
  Crockford's.
\<close>

datatype format = Rfc | Crockford

text \<open>
  The three failures of \<^verbatim>\<open>decode_lua\<close>. Each returns \<^verbatim>\<open>nil\<close> and an error
  object: \<^verbatim>\<open>EINVAL\<close> with the message about the input length, \<^verbatim>\<open>EINVAL\<close> with
  the message about the padding length, and \<^verbatim>\<open>EILSEQ\<close> with a message formatted
  from the offending byte \<^verbatim>\<open>c\<close> and the number \<^verbatim>\<open>(int)(i + 1)\<close>.
\<close>

datatype error =
    InvalidLength
  | InvalidPadding
  | IllegalCharacter uint8 int

text \<open>
  The cast \<^verbatim>\<open>(int)(i + 1)\<close> of the position to \<^verbatim>\<open>int\<close>, taken as 32 bits wide in
  two's complement: the position itself when it is below \<open>2 ^ 31\<close>.
\<close>

definition int_cast :: "nat \<Rightarrow> int" where
  "int_cast n = sint (of_nat n :: 32 word)"

section \<open>Lookup tables\<close>

definition RFC_DECODE_TABLE :: "uint8 list" where
  "RFC_DECODE_TABLE = [
     0xFF, 0xFF, 0xFF, 0xFF, 0xFF, 0xFF, 0xFF, 0xFF, 0xFF, 0xFF, 0xFF, 0xFF,
     0xFF, 0xFF, 0xFF, 0xFF, 0xFF, 0xFF, 0xFF, 0xFF, 0xFF, 0xFF, 0xFF, 0xFF,
     0xFF, 0xFF, 0xFF, 0xFF, 0xFF, 0xFF, 0xFF, 0xFF, 0xFF, 0xFF, 0xFF, 0xFF,
     0xFF, 0xFF, 0xFF, 0xFF, 0xFF, 0xFF, 0xFF, 0xFF, 0xFF, 0xFF, 0xFF, 0xFF,
     0xFF, 0xFF,

     \<comment> \<open>2-7\<close>
     26, 27, 28, 29, 30, 31,

     0xFF, 0xFF, 0xFF, 0xFF, 0xFF, 0xFF, 0xFF, 0xFF, 0xFF,

     \<comment> \<open>A-Z\<close>
     0, 1, 2, 3, 4, 5, 6, 7, 8, 9, 10, 11, 12, 13, 14, 15, 16, 17, 18, 19, 20,
     21, 22, 23, 24, 25,

     0xFF, 0xFF, 0xFF, 0xFF, 0xFF, 0xFF,

     \<comment> \<open>a-z\<close>
     0, 1, 2, 3, 4, 5, 6, 7, 8, 9, 10, 11, 12, 13, 14, 15, 16, 17, 18, 19, 20,
     21, 22, 23, 24, 25,

     0xFF, 0xFF, 0xFF, 0xFF, 0xFF, 0xFF, 0xFF, 0xFF, 0xFF, 0xFF, 0xFF, 0xFF,
     0xFF, 0xFF, 0xFF, 0xFF, 0xFF, 0xFF, 0xFF, 0xFF, 0xFF, 0xFF, 0xFF, 0xFF,
     0xFF, 0xFF, 0xFF, 0xFF, 0xFF, 0xFF, 0xFF, 0xFF, 0xFF, 0xFF, 0xFF, 0xFF,
     0xFF, 0xFF, 0xFF, 0xFF, 0xFF, 0xFF, 0xFF, 0xFF, 0xFF, 0xFF, 0xFF, 0xFF,
     0xFF, 0xFF, 0xFF, 0xFF, 0xFF, 0xFF, 0xFF, 0xFF, 0xFF, 0xFF, 0xFF, 0xFF,
     0xFF, 0xFF, 0xFF, 0xFF, 0xFF, 0xFF, 0xFF, 0xFF, 0xFF, 0xFF, 0xFF, 0xFF,
     0xFF, 0xFF, 0xFF, 0xFF, 0xFF, 0xFF, 0xFF, 0xFF, 0xFF, 0xFF, 0xFF, 0xFF,
     0xFF, 0xFF, 0xFF, 0xFF, 0xFF, 0xFF, 0xFF, 0xFF, 0xFF, 0xFF, 0xFF, 0xFF,
     0xFF, 0xFF, 0xFF, 0xFF, 0xFF, 0xFF, 0xFF, 0xFF, 0xFF, 0xFF, 0xFF, 0xFF,
     0xFF, 0xFF, 0xFF, 0xFF, 0xFF, 0xFF, 0xFF, 0xFF, 0xFF, 0xFF, 0xFF, 0xFF,
     0xFF, 0xFF, 0xFF, 0xFF, 0xFF, 0xFF, 0xFF, 0xFF, 0xFF, 0xFF, 0xFF, 0xFF,
     0xFF]"

definition CROCKFORD_DECODE_TABLE :: "uint8 list" where
  "CROCKFORD_DECODE_TABLE = [
     0xFF, 0xFF, 0xFF, 0xFF, 0xFF, 0xFF, 0xFF, 0xFF, 0xFF, 0xFF, 0xFF, 0xFF,
     0xFF, 0xFF, 0xFF, 0xFF, 0xFF, 0xFF, 0xFF, 0xFF, 0xFF, 0xFF, 0xFF, 0xFF,
     0xFF, 0xFF, 0xFF, 0xFF, 0xFF, 0xFF, 0xFF, 0xFF, 0xFF, 0xFF, 0xFF, 0xFF,
     0xFF, 0xFF, 0xFF, 0xFF, 0xFF, 0xFF, 0xFF, 0xFF, 0xFF, 0xFF, 0xFF, 0xFF,

     \<comment> \<open>0-9\<close>
     0, 1, 2, 3, 4, 5, 6, 7, 8, 9,

     0xFF, 0xFF, 0xFF, 0xFF, 0xFF, 0xFF, 0xFF,

     \<comment> \<open>A-Z (I=1, L=1, O=0, U=0xFF)\<close>
     10, 11, 12, 13, 14, 15, 16, 17, 1, 18, 19, 1, 20, 21, 0, 22, 23, 24, 25, 26,
     0xFF, 27, 28, 29, 30, 31,

     0xFF, 0xFF, 0xFF, 0xFF, 0xFF, 0xFF,

     \<comment> \<open>a-z (i=1, l=1, o=0, u=0xFF)\<close>
     10, 11, 12, 13, 14, 15, 16, 17, 1, 18, 19, 1, 20, 21, 0, 22, 23, 24, 25, 26,
     0xFF, 27, 28, 29, 30, 31,

     0xFF, 0xFF, 0xFF, 0xFF, 0xFF, 0xFF, 0xFF, 0xFF, 0xFF, 0xFF, 0xFF, 0xFF,
     0xFF, 0xFF, 0xFF, 0xFF, 0xFF, 0xFF, 0xFF, 0xFF, 0xFF, 0xFF, 0xFF, 0xFF,
     0xFF, 0xFF, 0xFF, 0xFF, 0xFF, 0xFF, 0xFF, 0xFF, 0xFF, 0xFF, 0xFF, 0xFF,
     0xFF, 0xFF, 0xFF, 0xFF, 0xFF, 0xFF, 0xFF, 0xFF, 0xFF, 0xFF, 0xFF, 0xFF,
     0xFF, 0xFF, 0xFF, 0xFF, 0xFF, 0xFF, 0xFF, 0xFF, 0xFF, 0xFF, 0xFF, 0xFF,
     0xFF, 0xFF, 0xFF, 0xFF, 0xFF, 0xFF, 0xFF, 0xFF, 0xFF, 0xFF, 0xFF, 0xFF,
     0xFF, 0xFF, 0xFF, 0xFF, 0xFF, 0xFF, 0xFF, 0xFF, 0xFF, 0xFF, 0xFF, 0xFF,
     0xFF, 0xFF, 0xFF, 0xFF, 0xFF, 0xFF, 0xFF, 0xFF, 0xFF, 0xFF, 0xFF, 0xFF,
     0xFF, 0xFF, 0xFF, 0xFF, 0xFF, 0xFF, 0xFF, 0xFF, 0xFF, 0xFF, 0xFF, 0xFF,
     0xFF, 0xFF, 0xFF, 0xFF, 0xFF, 0xFF, 0xFF, 0xFF, 0xFF, 0xFF, 0xFF, 0xFF,
     0xFF, 0xFF, 0xFF, 0xFF, 0xFF, 0xFF, 0xFF, 0xFF, 0xFF, 0xFF, 0xFF, 0xFF, -1]"

definition RFC_ALPHABET :: "bytes" where
  "RFC_ALPHABET = bytes_of ''ABCDEFGHIJKLMNOPQRSTUVWXYZ234567''"

definition CROCKFORD_ALPHABET :: "bytes" where
  "CROCKFORD_ALPHABET = bytes_of ''0123456789ABCDEFGHJKMNPQRSTVWXYZ''"

definition PAD :: "bytes" where
  "PAD = bytes_of ''========''"

section \<open>The decoder\<close>

definition decode_table :: "format \<Rightarrow> uint8 list" where
  "decode_table fmt = (case fmt of Rfc \<Rightarrow> RFC_DECODE_TABLE | Crockford \<Rightarrow> CROCKFORD_DECODE_TABLE)"

text \<open>
  The padding loop
  \<^verbatim>\<open>for (; tail > src && tail[-1] == '='; --tail) { len--; npad++; if (npad > 6) fail; }\<close>
  where \<^verbatim>\<open>tail\<close> is \<^verbatim>\<open>src + len\<close> throughout, so that \<^verbatim>\<open>tail[-1]\<close> is
  \<^verbatim>\<open>src[len - 1]\<close>. It returns the remaining length and the number of pad characters.
\<close>

fun strip_padding :: "bytes \<Rightarrow> nat \<Rightarrow> nat \<Rightarrow> error + (nat \<times> nat)" where
  "strip_padding src 0 npad = Inr (0, npad)"
| "strip_padding src (Suc n) npad =
     (if src ! n = 0x3D
      then (if npad + 1 > 6 then Inl InvalidPadding
            else strip_padding src n (npad + 1))
      else Inr (Suc n, npad))"

text \<open>
  The \<^verbatim>\<open>switch (opt)\<close>: the length and padding checks of the RFC alphabet; it
  returns the length left to scan.
\<close>

definition select_format :: "bytes \<Rightarrow> format \<Rightarrow> error + nat" where
  "select_format src fmt =
     (case fmt of
        Rfc \<Rightarrow>
          if length src mod 8 \<noteq> 0 then Inl InvalidLength
          else (case strip_padding src (length src) 0 of
                  Inl e \<Rightarrow> Inl e
                | Inr (len, npad) \<Rightarrow>
                    if npad \<noteq> 0 \<and> npad \<noteq> 1 \<and> npad \<noteq> 3 \<and> npad \<noteq> 4 \<and> npad \<noteq> 6
                    then Inl InvalidPadding
                    else Inr len)
      | Crockford \<Rightarrow> Inr (length src))"

text \<open>
  The scan \<^verbatim>\<open>for (size_t i = 0; i < len; i++)\<close> over the characters
  \<^verbatim>\<open>src[0 .. len)\<close>, given as a list together with the index \<^verbatim>\<open>i\<close> of its head.
  The state is the accumulator, the number of bits held and the output buffer. The
  comparison \<^verbatim>\<open>tbl == CROCKFORD_DECODE_TABLE\<close> of the table pointers holds exactly
  for option 1.
\<close>

fun scan :: "format \<Rightarrow> bytes \<Rightarrow> nat \<Rightarrow> uint64 \<times> nat \<times> bytes \<Rightarrow> error + (uint64 \<times> nat \<times> bytes)" where
  "scan fmt [] i st = Inr st"
| "scan fmt (c # cs) i (acc, nbits, out) =
     (let dc = decode_table fmt ! unat c in
      if c = 0x2D \<and> fmt = Crockford then scan fmt cs (i + 1) (acc, nbits, out)
      else if dc > 31 then Inl (IllegalCharacter c (int_cast (i + 1)))
      else
        let acc = push_bit 5 acc OR ucast dc;
            nbits = nbits + 5
        in if nbits \<ge> 40
           then scan fmt cs (i + 1)
                  (drop_bit 40 acc, nbits - 40,
                   out @ [ucast (drop_bit 32 acc AND 0xFF), ucast (drop_bit 24 acc AND 0xFF),
                          ucast (drop_bit 16 acc AND 0xFF), ucast (drop_bit 8 acc AND 0xFF),
                          ucast (acc AND 0xFF)])
           else scan fmt cs (i + 1) (acc, nbits, out))"

text \<open>
  The loop \<^verbatim>\<open>while (nbits >= 8) { nbits -= 8; luaL_addchar(&b, (acc >> nbits) & 0xFF); }\<close>.
\<close>

function drain :: "uint64 \<Rightarrow> nat \<Rightarrow> bytes \<Rightarrow> bytes" where
  "drain acc nbits out =
     (if nbits \<ge> 8
      then drain acc (nbits - 8) (out @ [ucast (drop_bit (nbits - 8) acc AND 0xFF)])
      else out)"
  by pat_completeness auto
termination
  by (relation "measure (\<lambda>(acc, nbits, out). nbits)") auto

declare drain.simps [simp del]

definition decode :: "bytes \<Rightarrow> format \<Rightarrow> error + bytes" where
  "decode src fmt =
     (if length src = 0 then Inr []
      else case select_format src fmt of
             Inl e \<Rightarrow> Inl e
           | Inr len \<Rightarrow>
               (case scan fmt (take len src) 0 (0, 0, []) of
                  Inl e \<Rightarrow> Inl e
                | Inr (acc, nbits, out) \<Rightarrow> Inr (drain acc nbits out)))"

section \<open>The encoder\<close>

definition encode_table :: "format \<Rightarrow> bytes" where
  "encode_table fmt = (case fmt of Rfc \<Rightarrow> RFC_ALPHABET | Crockford \<Rightarrow> CROCKFORD_ALPHABET)"

text \<open>
  The bulk loop \<^verbatim>\<open>while ((tail - head) >= 5)\<close>: five bytes become eight characters.
  It returns the bytes not yet consumed, the buffer and \<^verbatim>\<open>outlen\<close>.
\<close>

fun encode_bulk :: "bytes \<Rightarrow> bytes \<Rightarrow> bytes \<Rightarrow> nat \<Rightarrow> bytes \<times> bytes \<times> nat" where
  "encode_bulk tbl (h0 # h1 # h2 # h3 # h4 # rest) out outlen =
     (let acc = push_bit 32 (ucast h0 :: uint64) OR push_bit 24 (ucast h1) OR
                push_bit 16 (ucast h2) OR push_bit 8 (ucast h3) OR ucast h4
      in encode_bulk tbl rest
           (out @ [tbl ! unat (drop_bit 35 acc AND 0x1F), tbl ! unat (drop_bit 30 acc AND 0x1F),
                   tbl ! unat (drop_bit 25 acc AND 0x1F), tbl ! unat (drop_bit 20 acc AND 0x1F),
                   tbl ! unat (drop_bit 15 acc AND 0x1F), tbl ! unat (drop_bit 10 acc AND 0x1F),
                   tbl ! unat (drop_bit 5 acc AND 0x1F), tbl ! unat (acc AND 0x1F)])
           (outlen + 8))"
| "encode_bulk tbl head out outlen = (head, out, outlen)"

text \<open>
  The loop \<^verbatim>\<open>while (head < tail) { acc = (acc << 8) | *head++; nbits += 8; }\<close>.
\<close>

fun load_tail :: "bytes \<Rightarrow> uint32 \<Rightarrow> nat \<Rightarrow> uint32 \<times> nat" where
  "load_tail [] acc nbits = (acc, nbits)"
| "load_tail (h # head) acc nbits = load_tail head (push_bit 8 acc OR ucast h) (nbits + 8)"

text \<open>
  The loop
  \<^verbatim>\<open>while (nbits >= 5) { nbits -= 5; luaL_addchar(&b, tbl[(acc >> nbits) & 0x1F]); outlen++; }\<close>.
\<close>

function emit_groups :: "bytes \<Rightarrow> uint32 \<Rightarrow> nat \<Rightarrow> bytes \<Rightarrow> nat \<Rightarrow> nat \<times> bytes \<times> nat" where
  "emit_groups tbl acc nbits out outlen =
     (if nbits \<ge> 5
      then emit_groups tbl acc (nbits - 5)
             (out @ [tbl ! unat (drop_bit (nbits - 5) acc AND 0x1F)]) (outlen + 1)
      else (nbits, out, outlen))"
  by pat_completeness auto
termination
  by (relation "measure (\<lambda>(tbl, acc, nbits, out, outlen). nbits)") auto

declare emit_groups.simps [simp del]

text \<open>The block \<^verbatim>\<open>if (head < tail) { ... }\<close> for the last one to four bytes.\<close>

definition encode_tail :: "bytes \<Rightarrow> bytes \<Rightarrow> bytes \<Rightarrow> nat \<Rightarrow> bytes \<times> nat" where
  "encode_tail tbl head out outlen =
     (let (acc, nbits) = load_tail head 0 0;
          (nbits, out, outlen) = emit_groups tbl acc nbits out outlen
      in if nbits > 0
         then (out @ [tbl ! unat (push_bit (5 - nbits) acc AND 0x1F)], outlen + 1)
         else (out, outlen))"

definition encode :: "bytes \<Rightarrow> format \<Rightarrow> bytes" where
  "encode src fmt =
     (if length src = 0 then []
      else
        let tbl = encode_table fmt;
            (head, out, outlen) = encode_bulk tbl src [] 0;
            (out, outlen) = (if head \<noteq> [] then encode_tail tbl head out outlen
                             else (out, outlen))
        in if fmt = Rfc \<and> outlen mod 8 \<noteq> 0
           then out @ take (8 - outlen mod 8) PAD
           else out)"

section \<open>Vocabulary of the claims\<close>

text \<open>
  The following notions are not functions of the source: they name what the claims
  speak about.
\<close>

text \<open>
  A character the scan accepts: Crockford's separator \<open>-\<close>, or a character whose
  entry in the decode table is a 5-bit value.
\<close>

definition accepted :: "format \<Rightarrow> uint8 \<Rightarrow> bool" where
  "accepted fmt c = ((c = 0x2D \<and> fmt = Crockford) \<or> decode_table fmt ! unat c \<le> 31)"

text \<open>
  The length of the run of \<open>=\<close> at the end of the input.
\<close>

definition trailing_pads :: "bytes \<Rightarrow> nat" where
  "trailing_pads src = length (takeWhile (\<lambda>c. c = 0x3D) (rev src))"

text \<open>
  A result of the decoder without the position of an illegal character.
\<close>

definition forget_position :: "error + 'a \<Rightarrow> error + 'a" where
  "forget_position r =
     (case r of Inl (IllegalCharacter c p) \<Rightarrow> Inl (IllegalCharacter c 0) | _ \<Rightarrow> r)"

section \<open>Properties of the tables and the loops\<close>

subsection \<open>The cast of the position and the tables\<close>

lemma int_cast_eq: "n < 2 ^ 31 \<Longrightarrow> int_cast n = int n"
  unfolding int_cast_def
  by (simp add: signed_of_nat signed_take_bit_int_eq_self)

lemma length_encode_table: "length (encode_table fmt) = 32"
  by (cases fmt) (simp_all add: encode_table_def RFC_ALPHABET_def CROCKFORD_ALPHABET_def bytes_of_def)

lemma table_inverse_rfc:
  "list_all (\<lambda>n. decode_table Rfc ! unat (encode_table Rfc ! n) = of_nat n \<and>
                  encode_table Rfc ! n \<noteq> 0x2D \<and> encode_table Rfc ! n \<noteq> 0x3D) [0..<32]"
  by (simp add: decode_table_def encode_table_def RFC_ALPHABET_def RFC_DECODE_TABLE_def
      bytes_of_def upt_rec)

lemma table_inverse_crockford:
  "list_all (\<lambda>n. decode_table Crockford ! unat (encode_table Crockford ! n) = of_nat n \<and>
                  encode_table Crockford ! n \<noteq> 0x2D \<and> encode_table Crockford ! n \<noteq> 0x3D) [0..<32]"
  by (simp add: decode_table_def encode_table_def CROCKFORD_ALPHABET_def
      CROCKFORD_DECODE_TABLE_def bytes_of_def upt_rec)

lemma table_inverse_all:
  "list_all (\<lambda>n. decode_table fmt ! unat (encode_table fmt ! n) = of_nat n \<and>
                  encode_table fmt ! n \<noteq> 0x2D \<and> encode_table fmt ! n \<noteq> 0x3D) [0..<32]"
  using table_inverse_rfc table_inverse_crockford by (cases fmt) blast+

lemma table_inverse:
  assumes "n < 32"
  shows "decode_table fmt ! unat (encode_table fmt ! n) = of_nat n"
    and "encode_table fmt ! n \<noteq> 0x2D" and "encode_table fmt ! n \<noteq> 0x3D"
  using table_inverse_all [of fmt] assms by (simp_all add: list_all_iff)

subsection \<open>The scan\<close>

lemma scan_Cons:
  "scan fmt (c # cs) i st =
     (case scan fmt [c] i st of Inl e \<Rightarrow> Inl e | Inr st' \<Rightarrow> scan fmt cs (i + 1) st')"
  by (cases st) (simp add: Let_def)

lemma scan_append:
  "scan fmt (xs @ ys) i st =
     (case scan fmt xs i st of Inl e \<Rightarrow> Inl e | Inr st' \<Rightarrow> scan fmt ys (i + length xs) st')"
proof (induction xs arbitrary: i st)
  case Nil
  show ?case by simp
next
  case (Cons c cs)
  have "scan fmt ((c # cs) @ ys) i st =
          (case scan fmt [c] i st of Inl e \<Rightarrow> Inl e | Inr st' \<Rightarrow> scan fmt (cs @ ys) (i + 1) st')"
    using scan_Cons [of fmt c "cs @ ys" i st] by simp
  also have "\<dots> = (case scan fmt (c # cs) i st of Inl e \<Rightarrow> Inl e
                     | Inr st' \<Rightarrow> scan fmt ys (i + length (c # cs)) st')"
    unfolding scan_Cons [of fmt c cs i st] by (simp add: Cons.IH split: sum.split)
  finally show ?case .
qed

lemma scan_accepted:
  "\<forall>c\<in>set xs. accepted fmt c \<Longrightarrow> \<exists>st'. scan fmt xs i st = Inr st'"
proof (induction xs arbitrary: i st)
  case Nil
  show ?case by (intro exI) simp
next
  case (Cons c cs)
  obtain acc nbits out where st: "st = (acc, nbits, out)"
    using prod_cases3 by blast
  from Cons.prems have c: "accepted fmt c" and cs: "\<forall>c\<in>set cs. accepted fmt c"
    by simp_all
  show ?case
    unfolding st using c Cons.IH [OF cs]
    by (auto simp: accepted_def Let_def)
qed

lemma scan_rejects:
  "\<not> accepted fmt c \<Longrightarrow>
   scan fmt (c # cs) i st = Inl (IllegalCharacter c (int_cast (i + 1)))"
  by (cases st) (auto simp: accepted_def Let_def)

lemma scan_first_illegal:
  assumes "\<forall>c\<in>set xs. accepted fmt c" and "\<not> accepted fmt c"
  shows "scan fmt (xs @ c # ys) i st = Inl (IllegalCharacter c (int_cast (i + length xs + 1)))"
proof -
  obtain st' where "scan fmt xs i st = Inr st'"
    using scan_accepted [OF assms(1)] by blast
  then show ?thesis
    by (simp add: scan_append scan_rejects [OF assms(2)])
qed

lemma scan_Inl:
  "scan fmt xs i st = Inl e \<Longrightarrow>
   \<exists>ys c zs. xs = ys @ c # zs \<and> (\<forall>c\<in>set ys. accepted fmt c) \<and> \<not> accepted fmt c \<and>
            e = IllegalCharacter c (int_cast (i + length ys + 1))"
proof (induction xs arbitrary: i st)
  case Nil
  then show ?case by simp
next
  case (Cons c cs)
  show ?case
  proof (cases "accepted fmt c")
    case False
    then have "e = IllegalCharacter c (int_cast (i + 1))"
      using Cons.prems by (simp add: scan_rejects)
    with False show ?thesis
      by (intro exI [of _ "[]"] exI [of _ c] exI [of _ cs]) simp
  next
    case True
    obtain st' where step: "scan fmt [c] i st = Inr st'"
      using scan_accepted [of "[c]" fmt i st] True by auto
    have "scan fmt ([c] @ cs) i st = Inl e"
      using Cons.prems by simp
    then have "scan fmt cs (i + 1) st' = Inl e"
      unfolding scan_append step by simp
    from Cons.IH [OF this] obtain ys d zs where
      "cs = ys @ d # zs" "\<forall>c\<in>set ys. accepted fmt c" "\<not> accepted fmt d"
      "e = IllegalCharacter d (int_cast (i + 1 + length ys + 1))"
      by blast
    with True show ?thesis
      by (intro exI [of _ "c # ys"] exI [of _ d] exI [of _ zs]) simp
  qed
qed

lemma scan_Inr_iff:
  "(\<exists>st'. scan fmt xs i st = Inr st') \<longleftrightarrow> (\<forall>c\<in>set xs. accepted fmt c)"
proof
  assume "\<exists>st'. scan fmt xs i st = Inr st'"
  then obtain st' where ok: "scan fmt xs i st = Inr st'" ..
  show "\<forall>c\<in>set xs. accepted fmt c"
  proof (rule ccontr)
    assume "\<not> (\<forall>c\<in>set xs. accepted fmt c)"
    then obtain ys c zs where "xs = ys @ c # zs" "\<forall>c\<in>set ys. accepted fmt c" "\<not> accepted fmt c"
      using split_list_first_prop [of xs "\<lambda>c. \<not> accepted fmt c"] by auto
    then show False
      using scan_first_illegal [of ys fmt c zs i st] ok by simp
  qed
next
  assume "\<forall>c\<in>set xs. accepted fmt c"
  then show "\<exists>st'. scan fmt xs i st = Inr st'"
    by (rule scan_accepted)
qed

subsection \<open>The padding loop\<close>

lemma strip_padding_eq:
  "n \<le> length src \<Longrightarrow> npad \<le> 6 \<Longrightarrow>
   strip_padding src n npad =
     (let t = trailing_pads (take n src)
      in if npad + t > 6 then Inl InvalidPadding else Inr (n - t, npad + t))"
proof (induction n arbitrary: npad)
  case 0
  then show ?case by (simp add: trailing_pads_def)
next
  case (Suc n)
  then have n: "n < length src" by simp
  have tk: "take (Suc n) src = take n src @ [src ! n]"
    using n by (simp add: take_Suc_conv_app_nth)
  show ?case
  proof (cases "src ! n = 0x3D")
    case False
    then show ?thesis using Suc.prems by (simp add: tk trailing_pads_def)
  next
    case True
    have t: "trailing_pads (take (Suc n) src) = Suc (trailing_pads (take n src))"
      using True by (simp add: tk trailing_pads_def)
    have le: "trailing_pads (take n src) \<le> n"
      using n unfolding trailing_pads_def
      by (metis length_rev length_take length_takeWhile_le min.absorb2 less_imp_le_nat)
    show ?thesis
      using True Suc.IH [of "npad + 1"] Suc.prems n le by (auto simp: t Let_def)
  qed
qed

lemma select_format_rfc:
  "select_format src Rfc =
     (if length src mod 8 \<noteq> 0 then Inl InvalidLength
      else if trailing_pads src \<notin> {0, 1, 3, 4, 6} then Inl InvalidPadding
      else Inr (length src - trailing_pads src))"
  by (auto simp: select_format_def strip_padding_eq Let_def)

lemma not_accepted_rfc: "\<not> accepted Rfc 0x3D" "\<not> accepted Rfc 0x2D"
  by (simp_all add: accepted_def decode_table_def RFC_DECODE_TABLE_def)

lemma not_accepted_crockford: "\<not> accepted Crockford 0x55" "\<not> accepted Crockford 0x75"
  by (simp_all add: accepted_def decode_table_def CROCKFORD_DECODE_TABLE_def)

subsection \<open>The whole decoder\<close>

lemma decode_rfc:
  "src \<noteq> [] \<Longrightarrow>
   decode src Rfc =
     (if length src mod 8 \<noteq> 0 then Inl InvalidLength
      else if trailing_pads src \<notin> {0, 1, 3, 4, 6} then Inl InvalidPadding
      else case scan Rfc (take (length src - trailing_pads src) src) 0 (0, 0, []) of
             Inl e \<Rightarrow> Inl e
           | Inr (acc, nbits, out) \<Rightarrow> Inr (drain acc nbits out))"
  by (simp add: decode_def select_format_rfc)

lemma decode_rfc_length:
  "src \<noteq> [] \<Longrightarrow> length src mod 8 \<noteq> 0 \<Longrightarrow> decode src Rfc = Inl InvalidLength"
  by (simp add: decode_rfc)

lemma decode_rfc_padding:
  "src \<noteq> [] \<Longrightarrow> length src mod 8 = 0 \<Longrightarrow> trailing_pads src \<notin> {0, 1, 3, 4, 6} \<Longrightarrow>
   decode src Rfc = Inl InvalidPadding"
  by (simp add: decode_rfc)

lemma decode_rfc_scan:
  "src \<noteq> [] \<Longrightarrow> length src mod 8 = 0 \<Longrightarrow> trailing_pads src \<in> {0, 1, 3, 4, 6} \<Longrightarrow>
   decode src Rfc =
     (case scan Rfc (take (length src - trailing_pads src) src) 0 (0, 0, []) of
        Inl e \<Rightarrow> Inl e
      | Inr (acc, nbits, out) \<Rightarrow> Inr (drain acc nbits out))"
  by (simp only: decode_rfc if_False if_True not_not simp_thms)

lemma decode_crockford:
  "decode src Crockford =
     (case scan Crockford src 0 (0, 0, []) of
        Inl e \<Rightarrow> Inl e
      | Inr (acc, nbits, out) \<Rightarrow> Inr (drain acc nbits out))"
  by (cases src) (simp_all add: decode_def select_format_def drain.simps)

lemma scan_not_padding: "scan fmt xs i st \<noteq> Inl InvalidPadding"
  using scan_Inl [of fmt xs i st InvalidPadding] by auto

lemma scan_not_length: "scan fmt xs i st \<noteq> Inl InvalidLength"
  using scan_Inl [of fmt xs i st InvalidLength] by auto

lemma trailing_pads_append:
  assumes "\<exists>c\<in>set ys. c \<noteq> 0x3D"
  shows "trailing_pads (xs @ ys) = trailing_pads ys"
proof -
  from assms obtain c where c: "c \<in> set (rev ys)" "\<not> c = 0x3D"
    by auto
  show ?thesis
    unfolding trailing_pads_def
    using takeWhile_append1 [of c "rev ys" "\<lambda>c. c = 0x3D" "rev xs"] c by simp
qed

lemma trailing_pads_less:
  assumes "\<exists>c\<in>set ys. c \<noteq> 0x3D"
  shows "trailing_pads ys < length ys"
proof -
  have "takeWhile (\<lambda>c. c = 0x3D) (rev ys) \<noteq> rev ys"
    using assms by simp
  then have "length (takeWhile (\<lambda>c. c = 0x3D) (rev ys)) \<noteq> length (rev ys)"
    by (metis takeWhile_eq_take take_all_iff order_refl)
  with length_takeWhile_le [of "\<lambda>c. c = 0x3D" "rev ys"]
  show ?thesis
    unfolding trailing_pads_def by simp
qed

lemma decode_rfc_illegal:
  assumes "src = xs @ c # ys" and "\<not> accepted Rfc c" and "\<exists>d\<in>set (c # ys). d \<noteq> 0x3D"
    and "select_format src Rfc = Inr len"
  shows "length xs < len"
    and "\<exists>d p. decode src Rfc = Inl (IllegalCharacter d p)"
    and "\<forall>x\<in>set xs. accepted Rfc x \<Longrightarrow>
         decode src Rfc = Inl (IllegalCharacter c (int_cast (length xs + 1)))"
proof -
  let ?t = "trailing_pads src"
  have t: "?t = trailing_pads (c # ys)" "trailing_pads (c # ys) < length (c # ys)"
    using trailing_pads_append [of "c # ys" xs] trailing_pads_less [of "c # ys"] assms(1,3)
    by simp_all
  have len: "len = length src - ?t"
    using assms(4) by (auto simp: select_format_rfc split: if_splits)
  have ne: "src \<noteq> []"
    using assms(1) by simp
  have dec: "decode src Rfc =
      (case scan Rfc (take len src) 0 (0, 0, []) of Inl e \<Rightarrow> Inl e
       | Inr (acc, nbits, out) \<Rightarrow> Inr (drain acc nbits out))"
    using assms(4) ne by (simp add: decode_def)
  have tk: "take len src = xs @ c # take (length ys - ?t) ys"
    using t unfolding len assms(1) by (simp add: Suc_diff_le)
  show "length xs < len"
    using t unfolding len assms(1) by simp
  have "\<not> (\<forall>x\<in>set (take len src). accepted Rfc x)"
    unfolding tk using assms(2) by auto
  then have "\<not> (\<exists>st'. scan Rfc (take len src) 0 (0, 0, []) = Inr st')"
    using scan_Inr_iff [of Rfc "take len src" 0 "(0, 0, [])"] by blast
  then obtain e where e: "scan Rfc (take len src) 0 (0, 0, []) = Inl e"
    by (cases "scan Rfc (take len src) 0 (0, 0, [])") auto
  from scan_Inl [OF e] obtain d p where "e = IllegalCharacter d p"
    by blast
  then show "\<exists>d p. decode src Rfc = Inl (IllegalCharacter d p)"
    unfolding dec e by simp
  show "decode src Rfc = Inl (IllegalCharacter c (int_cast (length xs + 1)))"
    if "\<forall>x\<in>set xs. accepted Rfc x"
    unfolding dec tk using scan_first_illegal [OF that assms(2), of _ 0] by simp
qed

subsection \<open>The drain loop\<close>

lemma drain_length: "length (drain acc nbits out) = length out + nbits div 8"
proof (induction acc nbits out rule: drain.induct)
  case (1 acc nbits out)
  show ?case
  proof (cases "nbits \<ge> 8")
    case True
    then have "nbits div 8 = Suc ((nbits - 8) div 8)"
      by (simp add: le_div_geq)
    with True "1.IH" show ?thesis
      by (subst drain.simps) simp
  next
    case False
    then show ?thesis
      by (subst drain.simps) simp
  qed
qed

lemma drain_leftover:
  "take_bit (nbits mod 8) x = x \<Longrightarrow> drain (acc OR x) nbits out = drain acc nbits out"
proof (induction acc nbits out rule: drain.induct)
  case (1 acc nbits out)
  show ?case
  proof (cases "nbits \<ge> 8")
    case True
    then have m: "(nbits - 8) mod 8 = nbits mod 8"
      by (simp add: le_mod_geq)
    have "nbits mod 8 \<le> nbits - 8"
      using True by presburger
    then have "drop_bit (nbits - 8) (take_bit (nbits mod 8) x) = 0"
      by (simp add: drop_bit_take_bit)
    then have x: "drop_bit (nbits - 8) x = 0"
      using "1.prems" by simp
    have "drain (acc OR x) nbits out =
            drain (acc OR x) (nbits - 8) (out @ [ucast (drop_bit (nbits - 8) (acc OR x) AND 0xFF)])"
      using True by (subst drain.simps) simp
    also have "\<dots> = drain (acc OR x) (nbits - 8) (out @ [ucast (drop_bit (nbits - 8) acc AND 0xFF)])"
      by (simp add: x)
    also have "\<dots> = drain acc (nbits - 8) (out @ [ucast (drop_bit (nbits - 8) acc AND 0xFF)])"
      using "1.IH" [OF True] "1.prems" m by simp
    also have "\<dots> = drain acc nbits out"
      using True by (subst (2) drain.simps) simp
    finally show ?thesis .
  next
    case False
    then show ?thesis
      by (subst drain.simps, subst (2) drain.simps) simp
  qed
qed

lemma finish_Inr_iff:
  "(\<exists>bs. (case r of Inl e \<Rightarrow> Inl e
          | Inr (acc, nbits, out) \<Rightarrow> Inr (drain acc nbits out)) = Inr bs) \<longleftrightarrow>
   (\<exists>st'. r = Inr st')"
  by (cases r) auto

lemma decode_Inr_rfc:
  "(\<exists>bs. decode src Rfc = Inr bs) \<longleftrightarrow>
     src = [] \<or>
     (length src mod 8 = 0 \<and> trailing_pads src \<in> {0, 1, 3, 4, 6} \<and>
      (\<forall>c\<in>set (take (length src - trailing_pads src) src). accepted Rfc c))"
proof (cases "src = []")
  case True
  then show ?thesis by (simp add: decode_def)
next
  case False
  note ne = this
  let ?xs = "take (length src - trailing_pads src) src"
  consider "length src mod 8 \<noteq> 0"
    | "length src mod 8 = 0" "trailing_pads src \<notin> {0, 1, 3, 4, 6}"
    | "length src mod 8 = 0" "trailing_pads src \<in> {0, 1, 3, 4, 6}"
    by blast
  then show ?thesis
  proof cases
    case 1
    with ne show ?thesis
      using decode_rfc_length [of src] by simp
  next
    case 2
    with ne show ?thesis
      using decode_rfc_padding [of src] by simp
  next
    case 3
    have "(\<exists>bs. decode src Rfc = Inr bs) \<longleftrightarrow> (\<forall>c\<in>set ?xs. accepted Rfc c)"
      unfolding decode_rfc_scan [OF ne 3] by (simp only: finish_Inr_iff scan_Inr_iff)
    with 3 ne show ?thesis by blast
  qed
qed

lemma decode_Inr_crockford:
  "(\<exists>bs. decode src Crockford = Inr bs) \<longleftrightarrow> (\<forall>c\<in>set src. accepted Crockford c)"
  by (simp only: decode_crockford finish_Inr_iff scan_Inr_iff)

subsection \<open>The first illegal character\<close>


lemma decode_crockford_illegal:
  assumes "\<not> accepted Crockford c" and "\<forall>x\<in>set xs. accepted Crockford x"
  shows "decode (xs @ c # ys) Crockford = Inl (IllegalCharacter c (int_cast (length xs + 1)))"
  unfolding decode_crockford using scan_first_illegal [OF assms(2,1), of ys 0 "(0, 0, [])"]
  by simp

subsection \<open>One character of the encoder under the scan\<close>

lemma mask5: "(0x1F :: 'a::len word) = mask 5"
  by (simp add: mask_eq_exp_minus_1)

lemma mask8: "(0xFF :: 'a::len word) = mask 8"
  by (simp add: mask_eq_exp_minus_1)

lemma unat_and_1F: "unat (x AND 0x1F :: 'a::len word) < 32"
proof -
  have "unat (take_bit 5 x) < 2 ^ 5"
    unfolding unsigned_take_bit_eq by (rule take_bit_nat_less_exp)
  then show ?thesis by (simp add: mask5 take_bit_eq_mask)
qed

lemma sym_value:
  assumes "n < 32"
  shows "\<not> 31 < (of_nat n :: uint8)" and "ucast (of_nat n :: uint8) = (of_nat n :: uint64)"
proof -
  have u: "unat (of_nat n :: uint8) = n"
    using assms by (simp add: unsigned_of_nat take_bit_nat_eq_self)
  show "\<not> 31 < (of_nat n :: uint8)"
    using assms by (simp add: word_less_nat_alt u)
  show "ucast (of_nat n :: uint8) = (of_nat n :: uint64)"
    using assms by (simp add: unsigned_of_nat take_bit_nat_eq_self)
qed

lemma sym_in_table: "encode_table fmt ! unat (x AND 0x1F :: 'a::len word) \<in> set (encode_table fmt)"
  by (rule nth_mem) (simp add: length_encode_table unat_and_1F)

lemma scan_legal_step:
  assumes "decode_table fmt ! unat c = dc" and "\<not> 31 < dc" and "c \<noteq> 0x2D" and "nbits + 5 < 40"
  shows "scan fmt (c # cs) i (acc, nbits, out) =
         scan fmt cs (i + 1) (push_bit 5 acc OR ucast dc, nbits + 5, out)"
  using assms by (simp add: Let_def)

lemma scan_legal_step_emit:
  assumes "decode_table fmt ! unat c = dc" and "\<not> 31 < dc" and "c \<noteq> 0x2D"
    and "acc' = push_bit 5 acc OR ucast dc"
  shows "scan fmt (c # cs) i (acc, 35, out) =
         scan fmt cs (i + 1)
           (drop_bit 40 acc', 0,
            out @ [ucast (drop_bit 32 acc' AND 0xFF), ucast (drop_bit 24 acc' AND 0xFF),
                   ucast (drop_bit 16 acc' AND 0xFF), ucast (drop_bit 8 acc' AND 0xFF),
                   ucast (acc' AND 0xFF)])"
  using assms(1-3) unfolding assms(4) by (simp add: Let_def)

lemma sym_ucast:
  fixes x :: "'a::len word"
  shows "(ucast (of_nat (unat (x AND 0x1F)) :: uint8) :: uint64) = ucast (x AND 0x1F)"
  unfolding sym_value(2) [OF unat_and_1F] by simp

lemma enc_step:
  fixes x :: "'a::len word"
  assumes "nbits + 5 < 40"
  shows "scan fmt (encode_table fmt ! unat (x AND 0x1F) # cs) i (acc, nbits, out) =
         scan fmt cs (i + 1) (push_bit 5 acc OR ucast (x AND 0x1F), nbits + 5, out)"
  unfolding scan_legal_step [OF table_inverse(1) [OF unat_and_1F] sym_value(1) [OF unat_and_1F]
      table_inverse(2) [OF unat_and_1F] assms] sym_ucast ..

lemma enc_step_emit:
  fixes x :: "'a::len word"
  assumes "acc' = push_bit 5 acc OR ucast (x AND 0x1F)"
  shows "scan fmt (encode_table fmt ! unat (x AND 0x1F) # cs) i (acc, 35, out) =
         scan fmt cs (i + 1)
           (drop_bit 40 acc', 0,
            out @ [ucast (drop_bit 32 acc' AND 0xFF), ucast (drop_bit 24 acc' AND 0xFF),
                   ucast (drop_bit 16 acc' AND 0xFF), ucast (drop_bit 8 acc' AND 0xFF),
                   ucast (acc' AND 0xFF)])"
proof -
  have "acc' = push_bit 5 acc OR ucast (of_nat (unat (x AND 0x1F)) :: uint8)"
    unfolding sym_ucast by (rule assms)
  from scan_legal_step_emit [OF table_inverse(1) [OF unat_and_1F] sym_value(1) [OF unat_and_1F]
      table_inverse(2) [OF unat_and_1F] this]
  show ?thesis .
qed

subsection \<open>Five bytes, eight characters\<close>

lemma slice5:
  "push_bit 5 (drop_bit (k + 5) w) OR (drop_bit k w AND 0x1F) = drop_bit k (w :: uint64)"
  unfolding mask5
  by (rule bit_eqI) (auto simp: bit_simps add.commute simp flip: take_bit_eq_mask)

lemma bytes5:
  fixes h0 h1 h2 h3 h4 :: uint8
  defines "A \<equiv> push_bit 32 (ucast h0 :: uint64) OR push_bit 24 (ucast h1) OR
                push_bit 16 (ucast h2) OR push_bit 8 (ucast h3) OR ucast h4"
  shows "ucast (drop_bit 32 A AND 0xFF) = h0"
    and "ucast (drop_bit 24 A AND 0xFF) = h1"
    and "ucast (drop_bit 16 A AND 0xFF) = h2"
    and "ucast (drop_bit 8 A AND 0xFF) = h3"
    and "ucast (A AND 0xFF) = h4"
    and "drop_bit 40 A = 0"
  unfolding A_def mask8
  by (rule bit_eqI; auto simp: bit_simps simp flip: take_bit_eq_mask dest: bit_imp_le_length)+

lemma chunk_step:
  fixes A :: uint64
  assumes "acc = drop_bit (k + 5) A" and "nbits + 5 < 40"
  shows "scan fmt (encode_table fmt ! unat (drop_bit k A AND 0x1F) # cs) i (acc, nbits, out) =
         scan fmt cs (i + 1) (drop_bit k A, nbits + 5, out)"
  unfolding enc_step [OF assms(2)] assms(1) using slice5 [of k A] by simp

lemma chunk_scan:
  fixes h0 h1 h2 h3 h4 :: uint8 and fmt :: format
  defines "A \<equiv> push_bit 32 (ucast h0 :: uint64) OR push_bit 24 (ucast h1) OR
                push_bit 16 (ucast h2) OR push_bit 8 (ucast h3) OR ucast h4"
  defines "tbl \<equiv> encode_table fmt"
  shows "scan fmt
           ([tbl ! unat (drop_bit 35 A AND 0x1F), tbl ! unat (drop_bit 30 A AND 0x1F),
             tbl ! unat (drop_bit 25 A AND 0x1F), tbl ! unat (drop_bit 20 A AND 0x1F),
             tbl ! unat (drop_bit 15 A AND 0x1F), tbl ! unat (drop_bit 10 A AND 0x1F),
             tbl ! unat (drop_bit 5 A AND 0x1F), tbl ! unat (A AND 0x1F)] @ rest) i (0, 0, d) =
         scan fmt rest (i + 8) (0, 0, d @ [h0, h1, h2, h3, h4])"
proof -
  note b = bytes5 [of h0 h1 h2 h3 h4, folded A_def]
  have last: "A = push_bit 5 (drop_bit 5 A) OR ucast (A AND 0x1F)"
    using slice5 [of 0 A] by simp
  have idx: "Suc (Suc (Suc (Suc (Suc (Suc (Suc i)))))) = i + 7"
    by simp
  have "scan fmt
           ([tbl ! unat (drop_bit 35 A AND 0x1F), tbl ! unat (drop_bit 30 A AND 0x1F),
             tbl ! unat (drop_bit 25 A AND 0x1F), tbl ! unat (drop_bit 20 A AND 0x1F),
             tbl ! unat (drop_bit 15 A AND 0x1F), tbl ! unat (drop_bit 10 A AND 0x1F),
             tbl ! unat (drop_bit 5 A AND 0x1F), tbl ! unat (A AND 0x1F)] @ rest) i (0, 0, d) =
        scan fmt (tbl ! unat (A AND 0x1F) # rest) (i + 7) (drop_bit 5 A, 35, d)"
    unfolding tbl_def
    using b(6) by (simp add: chunk_step [where A = A] idx del: scan.simps)
  also have "\<dots> = scan fmt rest (i + 8) (0, 0, d @ [h0, h1, h2, h3, h4])"
    unfolding tbl_def enc_step_emit [OF last] b by (simp add: add.commute del: scan.simps)
  finally show ?thesis .
qed

lemma encode_bulk_short:
  "length src < 5 \<Longrightarrow> encode_bulk tbl src out outlen = (src, out, outlen)"
  by (induction tbl src out outlen rule: encode_bulk.induct) simp_all

lemma list5:
  "5 \<le> length xs \<Longrightarrow> \<exists>h0 h1 h2 h3 h4 hs. xs = h0 # h1 # h2 # h3 # h4 # hs"
  by (auto simp: eval_nat_numeral Suc_le_length_iff)

lemma take5:
  "take (5 * Suc k) (h0 # h1 # h2 # h3 # h4 # hs) = h0 # h1 # h2 # h3 # h4 # take (5 * k) hs"
proof -
  have "5 * Suc k = Suc (Suc (Suc (Suc (Suc (5 * k)))))"
    by simp
  then show ?thesis
    by (simp only: take_Suc_Cons)
qed

lemma drop5:
  "drop (5 * Suc k) (h0 # h1 # h2 # h3 # h4 # hs) = drop (5 * k) hs"
proof -
  have "5 * Suc k = Suc (Suc (Suc (Suc (Suc (5 * k)))))"
    by simp
  then show ?thesis
    by (simp only: drop_Suc_Cons)
qed

lemma encode_bulk_spec:
  "\<exists>syms. encode_bulk (encode_table fmt) src out outlen =
            (drop (5 * (length src div 5)) src, out @ syms, outlen + length syms) \<and>
          length syms = 8 * (length src div 5) \<and>
          set syms \<subseteq> set (encode_table fmt) \<and>
          (\<forall>rest i d. scan fmt (syms @ rest) i (0, 0, d) =
             scan fmt rest (i + length syms) (0, 0, d @ take (5 * (length src div 5)) src))"
proof (induction src arbitrary: out outlen rule: length_induct)
  case (1 src)
  show ?case
  proof (cases "length src < 5")
    case True
    then show ?thesis
      by (intro exI [of _ "[]"]) (simp add: encode_bulk_short)
  next
    case False
    then obtain h0 h1 h2 h3 h4 hs where src: "src = h0 # h1 # h2 # h3 # h4 # hs"
      using list5 [of src] by auto
    define A where "A = (push_bit 32 (ucast h0 :: uint64) OR push_bit 24 (ucast h1) OR
                push_bit 16 (ucast h2) OR push_bit 8 (ucast h3) OR ucast h4)"
    define tbl where "tbl = encode_table fmt"
    define chunk where "chunk =
            [tbl ! unat (drop_bit 35 A AND 0x1F), tbl ! unat (drop_bit 30 A AND 0x1F),
             tbl ! unat (drop_bit 25 A AND 0x1F), tbl ! unat (drop_bit 20 A AND 0x1F),
             tbl ! unat (drop_bit 15 A AND 0x1F), tbl ! unat (drop_bit 10 A AND 0x1F),
             tbl ! unat (drop_bit 5 A AND 0x1F), tbl ! unat (A AND 0x1F)]"
    have step: "encode_bulk tbl src out outlen = encode_bulk tbl hs (out @ chunk) (outlen + 8)"
      unfolding src chunk_def A_def by (simp add: Let_def)
    have "length hs < length src"
      unfolding src by simp
    with "1.IH" obtain syms where
      bulk: "encode_bulk tbl hs (out @ chunk) (outlen + 8) =
               (drop (5 * (length hs div 5)) hs, (out @ chunk) @ syms, outlen + 8 + length syms)"
      and len: "length syms = 8 * (length hs div 5)"
      and sub: "set syms \<subseteq> set tbl"
      and sc: "\<And>rest i d. scan fmt (syms @ rest) i (0, 0, d) =
             scan fmt rest (i + length syms) (0, 0, d @ take (5 * (length hs div 5)) hs)"
      unfolding tbl_def by blast
    have d5: "length src div 5 = Suc (length hs div 5)"
      unfolding src by simp
    have lc: "length chunk = 8"
      by (simp add: chunk_def)
    have csub: "set chunk \<subseteq> set tbl"
      unfolding chunk_def tbl_def using sym_in_table [where fmt = fmt and 'a = 64] by simp
    have cs: "scan fmt (chunk @ rest) i (0, 0, d) = scan fmt rest (i + 8) (0, 0, d @ [h0, h1, h2, h3, h4])"
      for rest i d
      unfolding chunk_def tbl_def A_def by (rule chunk_scan)
    have "scan fmt ((chunk @ syms) @ rest) i (0, 0, d) =
             scan fmt rest (i + length (chunk @ syms))
               (0, 0, d @ take (5 * (length src div 5)) src)" for rest i d
    proof -
      have "scan fmt ((chunk @ syms) @ rest) i (0, 0, d) =
            scan fmt (syms @ rest) (i + 8) (0, 0, d @ [h0, h1, h2, h3, h4])"
        using cs [of "syms @ rest" i d] by simp
      also have "\<dots> = scan fmt rest (i + 8 + length syms)
            (0, 0, (d @ [h0, h1, h2, h3, h4]) @ take (5 * (length hs div 5)) hs)"
        by (rule sc)
      also have "(d @ [h0, h1, h2, h3, h4]) @ take (5 * (length hs div 5)) hs =
            d @ take (5 * (length src div 5)) src"
        unfolding d5 unfolding src take5 by simp
      finally show ?thesis
        by (simp add: lc add.assoc)
    qed
    moreover have "encode_bulk tbl src out outlen =
            (drop (5 * (length src div 5)) src, out @ chunk @ syms, outlen + length (chunk @ syms))"
      unfolding step bulk d5 unfolding src drop5 by (simp add: lc)
    moreover have "length (chunk @ syms) = 8 * (length src div 5)"
      unfolding d5 by (simp add: lc len)
    moreover have "set (chunk @ syms) \<subseteq> set tbl"
      using csub sub by simp
    ultimately show ?thesis
      unfolding tbl_def by (intro exI [of _ "chunk @ syms"]) simp
  qed
qed

subsection \<open>The last one to four bytes\<close>

lemma tail_slice5:
  fixes T :: uint32
  shows "push_bit 5 (ucast (drop_bit (k + 5) T) :: uint64) OR ucast (drop_bit k T AND 0x1F) =
         ucast (drop_bit k T)"
  unfolding mask5
  by (rule bit_eqI) (auto simp: bit_simps add.commute simp flip: take_bit_eq_mask
      dest: bit_imp_le_length)

lemma bit_eq_split5:
  fixes a b :: "'a::len word"
  assumes "\<And>n. n < 5 \<Longrightarrow> bit a n = bit b n" and "\<And>j. bit a (5 + j) = bit b (5 + j)"
  shows "a = b"
proof (rule bit_eqI)
  fix n
  show "bit a n = bit b n"
  proof (cases "n < 5")
    case True
    then show ?thesis by (rule assms(1))
  next
    case False
    then obtain j where "n = 5 + j"
      using le_Suc_ex [of 5 n] by auto
    then show ?thesis by (simp only: assms(2))
  qed
qed

lemma tail_slice_last:
  fixes T :: uint32
  shows "push_bit 5 (ucast (drop_bit 3 T) :: uint64) OR ucast (push_bit 2 T AND 0x1F) =
         push_bit 2 (ucast T)"
    and "push_bit 5 (ucast (drop_bit 1 T) :: uint64) OR ucast (push_bit 4 T AND 0x1F) =
         push_bit 4 (ucast T)"
    and "push_bit 5 (ucast (drop_bit 4 T) :: uint64) OR ucast (push_bit 1 T AND 0x1F) =
         push_bit 1 (ucast T)"
    and "push_bit 5 (ucast (drop_bit 2 T) :: uint64) OR ucast (push_bit 3 T AND 0x1F) =
         push_bit 3 (ucast T)"
  unfolding mask5
  by (rule bit_eq_split5;
      auto simp: bit_simps simp flip: take_bit_eq_mask simp del: push_bit_Suc
        dest: bit_imp_le_length)+

lemma tail_step:
  fixes T :: uint32
  assumes "acc = ucast (drop_bit (k + 5) T)" and "nbits + 5 < 40"
  shows "scan fmt (encode_table fmt ! unat (drop_bit k T AND 0x1F) # cs) i (acc, nbits, out) =
         scan fmt cs (i + 1) (ucast (drop_bit k T), nbits + 5, out)"
  unfolding enc_step [OF assms(2)] assms(1) tail_slice5 ..

lemma tail_last:
  fixes T :: uint32
  assumes "nbits + 5 < 40"
  shows "scan fmt (encode_table fmt ! unat (push_bit 2 T AND 0x1F) # cs) i
           (ucast (drop_bit 3 T), nbits, out) =
         scan fmt cs (i + 1) (push_bit 2 (ucast T), nbits + 5, out)"
    and "scan fmt (encode_table fmt ! unat (push_bit 4 T AND 0x1F) # cs) i
           (ucast (drop_bit 1 T), nbits, out) =
         scan fmt cs (i + 1) (push_bit 4 (ucast T), nbits + 5, out)"
    and "scan fmt (encode_table fmt ! unat (push_bit 1 T AND 0x1F) # cs) i
           (ucast (drop_bit 4 T), nbits, out) =
         scan fmt cs (i + 1) (push_bit 1 (ucast T), nbits + 5, out)"
    and "scan fmt (encode_table fmt ! unat (push_bit 3 T AND 0x1F) # cs) i
           (ucast (drop_bit 2 T), nbits, out) =
         scan fmt cs (i + 1) (push_bit 3 (ucast T), nbits + 5, out)"
  unfolding enc_step [OF assms] tail_slice_last by (rule refl)+

lemma encode_tail_unfold:
  "load_tail head 0 0 = (T, 8) \<Longrightarrow>
   encode_tail tbl head out n =
     (out @ [tbl ! unat (drop_bit 3 T AND 0x1F), tbl ! unat (push_bit 2 T AND 0x1F)], n + 2)"
  "load_tail head 0 0 = (T, 16) \<Longrightarrow>
   encode_tail tbl head out n =
     (out @ [tbl ! unat (drop_bit 11 T AND 0x1F), tbl ! unat (drop_bit 6 T AND 0x1F),
             tbl ! unat (drop_bit 1 T AND 0x1F), tbl ! unat (push_bit 4 T AND 0x1F)], n + 4)"
  "load_tail head 0 0 = (T, 24) \<Longrightarrow>
   encode_tail tbl head out n =
     (out @ [tbl ! unat (drop_bit 19 T AND 0x1F), tbl ! unat (drop_bit 14 T AND 0x1F),
             tbl ! unat (drop_bit 9 T AND 0x1F), tbl ! unat (drop_bit 4 T AND 0x1F),
             tbl ! unat (push_bit 1 T AND 0x1F)], n + 5)"
  "load_tail head 0 0 = (T, 32) \<Longrightarrow>
   encode_tail tbl head out n =
     (out @ [tbl ! unat (drop_bit 27 T AND 0x1F), tbl ! unat (drop_bit 22 T AND 0x1F),
             tbl ! unat (drop_bit 17 T AND 0x1F), tbl ! unat (drop_bit 12 T AND 0x1F),
             tbl ! unat (drop_bit 7 T AND 0x1F), tbl ! unat (drop_bit 2 T AND 0x1F),
             tbl ! unat (push_bit 3 T AND 0x1F)], n + 7)"
  by (simp_all add: encode_tail_def emit_groups.simps del: push_bit_Suc)

lemma drain_unfold:
  "drain acc 0 d = d"
  "drain acc 10 d = d @ [ucast (drop_bit 2 acc AND 0xFF)]"
  "drain acc 20 d = d @ [ucast (drop_bit 12 acc AND 0xFF), ucast (drop_bit 4 acc AND 0xFF)]"
  "drain acc 25 d = d @ [ucast (drop_bit 17 acc AND 0xFF), ucast (drop_bit 9 acc AND 0xFF),
                         ucast (drop_bit 1 acc AND 0xFF)]"
  "drain acc 35 d = d @ [ucast (drop_bit 27 acc AND 0xFF), ucast (drop_bit 19 acc AND 0xFF),
                         ucast (drop_bit 11 acc AND 0xFF), ucast (drop_bit 3 acc AND 0xFF)]"
  by (simp_all add: drain.simps)

lemma tail_scan:
  fixes T :: uint32
  shows "drop_bit 8 T = 0 \<Longrightarrow>
     scan fmt [encode_table fmt ! unat (drop_bit 3 T AND 0x1F),
               encode_table fmt ! unat (push_bit 2 T AND 0x1F)] i (0, 0, d) =
     Inr (push_bit 2 (ucast T), 10, d)"
  and "drop_bit 16 T = 0 \<Longrightarrow>
     scan fmt [encode_table fmt ! unat (drop_bit 11 T AND 0x1F),
               encode_table fmt ! unat (drop_bit 6 T AND 0x1F),
               encode_table fmt ! unat (drop_bit 1 T AND 0x1F),
               encode_table fmt ! unat (push_bit 4 T AND 0x1F)] i (0, 0, d) =
     Inr (push_bit 4 (ucast T), 20, d)"
  and "drop_bit 24 T = 0 \<Longrightarrow>
     scan fmt [encode_table fmt ! unat (drop_bit 19 T AND 0x1F),
               encode_table fmt ! unat (drop_bit 14 T AND 0x1F),
               encode_table fmt ! unat (drop_bit 9 T AND 0x1F),
               encode_table fmt ! unat (drop_bit 4 T AND 0x1F),
               encode_table fmt ! unat (push_bit 1 T AND 0x1F)] i (0, 0, d) =
     Inr (push_bit 1 (ucast T), 25, d)"
  and "scan fmt [encode_table fmt ! unat (drop_bit 27 T AND 0x1F),
               encode_table fmt ! unat (drop_bit 22 T AND 0x1F),
               encode_table fmt ! unat (drop_bit 17 T AND 0x1F),
               encode_table fmt ! unat (drop_bit 12 T AND 0x1F),
               encode_table fmt ! unat (drop_bit 7 T AND 0x1F),
               encode_table fmt ! unat (drop_bit 2 T AND 0x1F),
               encode_table fmt ! unat (push_bit 3 T AND 0x1F)] i (0, 0, d) =
     Inr (push_bit 3 (ucast T), 35, d)"
  by (simp_all add: tail_step [where T = T] tail_last del: scan.simps(2) push_bit_Suc One_nat_def)

lemma tail_bytes1:
  fixes a :: uint8
  defines "T \<equiv> push_bit 8 0 OR ucast a :: uint32"
  shows "load_tail [a] 0 0 = (T, 8)" and "drop_bit 8 T = 0"
    and "ucast (drop_bit 2 (push_bit 2 (ucast T :: uint64)) AND 0xFF) = a"
proof -
  show "load_tail [a] 0 0 = (T, 8)"
    unfolding T_def by simp
  show "drop_bit 8 T = 0"
    unfolding T_def
    by (rule bit_eqI) (auto simp: bit_simps dest: bit_imp_le_length)
  show "ucast (drop_bit 2 (push_bit 2 (ucast T :: uint64)) AND 0xFF) = a"
    unfolding T_def mask8
    by (rule bit_eqI) (auto simp: bit_simps simp flip: take_bit_eq_mask dest: bit_imp_le_length)
qed

lemma tail_bytes2:
  fixes a b :: uint8
  defines "T \<equiv> push_bit 8 (push_bit 8 0 OR ucast a) OR ucast b :: uint32"
  shows "load_tail [a, b] 0 0 = (T, 16)" and "drop_bit 16 T = 0"
    and "ucast (drop_bit 12 (push_bit 4 (ucast T :: uint64)) AND 0xFF) = a"
    and "ucast (drop_bit 4 (push_bit 4 (ucast T :: uint64)) AND 0xFF) = b"
proof -
  show "load_tail [a, b] 0 0 = (T, 16)"
    unfolding T_def by simp
  show "drop_bit 16 T = 0"
    unfolding T_def
    by (rule bit_eqI) (auto simp: bit_simps dest: bit_imp_le_length)
  show "ucast (drop_bit 12 (push_bit 4 (ucast T :: uint64)) AND 0xFF) = a"
    and "ucast (drop_bit 4 (push_bit 4 (ucast T :: uint64)) AND 0xFF) = b"
    unfolding T_def mask8
    by (rule bit_eqI; auto simp: bit_simps simp flip: take_bit_eq_mask dest: bit_imp_le_length)+
qed

lemma tail_bytes3:
  fixes a b c :: uint8
  defines "T \<equiv> push_bit 8 (push_bit 8 (push_bit 8 0 OR ucast a) OR ucast b) OR ucast c :: uint32"
  shows "load_tail [a, b, c] 0 0 = (T, 24)" and "drop_bit 24 T = 0"
    and "ucast (drop_bit 17 (push_bit 1 (ucast T :: uint64)) AND 0xFF) = a"
    and "ucast (drop_bit 9 (push_bit 1 (ucast T :: uint64)) AND 0xFF) = b"
    and "ucast (drop_bit 1 (push_bit 1 (ucast T :: uint64)) AND 0xFF) = c"
proof -
  show "load_tail [a, b, c] 0 0 = (T, 24)"
    unfolding T_def by simp
  show "drop_bit 24 T = 0"
    unfolding T_def
    by (rule bit_eqI) (auto simp: bit_simps dest: bit_imp_le_length)
  show "ucast (drop_bit 17 (push_bit 1 (ucast T :: uint64)) AND 0xFF) = a"
    and "ucast (drop_bit 9 (push_bit 1 (ucast T :: uint64)) AND 0xFF) = b"
    and "ucast (drop_bit 1 (push_bit 1 (ucast T :: uint64)) AND 0xFF) = c"
    unfolding T_def mask8
    by (rule bit_eqI; auto simp: bit_simps simp flip: take_bit_eq_mask
        simp del: push_bit_Suc dest: bit_imp_le_length)+
qed

lemma tail_bytes4:
  fixes a b c e :: uint8
  defines "T \<equiv> push_bit 8 (push_bit 8 (push_bit 8 (push_bit 8 0 OR ucast a) OR ucast b)
                  OR ucast c) OR ucast e :: uint32"
  shows "load_tail [a, b, c, e] 0 0 = (T, 32)"
    and "ucast (drop_bit 27 (push_bit 3 (ucast T :: uint64)) AND 0xFF) = a"
    and "ucast (drop_bit 19 (push_bit 3 (ucast T :: uint64)) AND 0xFF) = b"
    and "ucast (drop_bit 11 (push_bit 3 (ucast T :: uint64)) AND 0xFF) = c"
    and "ucast (drop_bit 3 (push_bit 3 (ucast T :: uint64)) AND 0xFF) = e"
proof -
  show "load_tail [a, b, c, e] 0 0 = (T, 32)"
    unfolding T_def by simp
  show "ucast (drop_bit 27 (push_bit 3 (ucast T :: uint64)) AND 0xFF) = a"
    and "ucast (drop_bit 19 (push_bit 3 (ucast T :: uint64)) AND 0xFF) = b"
    and "ucast (drop_bit 11 (push_bit 3 (ucast T :: uint64)) AND 0xFF) = c"
    and "ucast (drop_bit 3 (push_bit 3 (ucast T :: uint64)) AND 0xFF) = e"
    unfolding T_def mask8
    by (rule bit_eqI; auto simp: bit_simps simp flip: take_bit_eq_mask dest: bit_imp_le_length)+
qed

lemma short_list_cases:
  assumes "head \<noteq> []" and "length head < 5"
  obtains a where "head = [a]"
    | a b where "head = [a, b]"
    | a b c where "head = [a, b, c]"
    | a b c e where "head = [a, b, c, e]"
proof -
  from assms have "0 < length head"
    by simp
  with assms(2) have "length head = 1 \<or> length head = 2 \<or> length head = 3 \<or> length head = 4"
    by arith
  then show ?thesis
    using that by (auto simp: length_Suc_conv eval_nat_numeral)
qed

lemma encode_tail_spec:
  assumes "head \<noteq> []" and "length head < 5"
  shows "\<exists>syms acc nbits.
           encode_tail (encode_table fmt) head out n = (out @ syms, n + length syms) \<and>
           length syms = (8 * length head + 4) div 5 \<and>
           set syms \<subseteq> set (encode_table fmt) \<and>
           (\<forall>i d. scan fmt syms i (0, 0, d) = Inr (acc, nbits, d)) \<and>
           (\<forall>d. drain acc nbits d = d @ head)"
  using assms
proof (cases head rule: short_list_cases)
  case (1 a)
  define T :: uint32 where "T = push_bit 8 0 OR ucast a"
  define tbl where "tbl = encode_table fmt"
  define syms where "syms = [tbl ! unat (drop_bit 3 T AND 0x1F), tbl ! unat (push_bit 2 T AND 0x1F)]"
  note tb = tail_bytes1 [of a, folded T_def]
  have enc: "encode_tail tbl head out n = (out @ syms, n + length syms)"
    unfolding syms_def 1 using encode_tail_unfold(1) [OF tb(1)] by simp
  have len: "length syms = (8 * length head + 4) div 5"
    unfolding syms_def 1 by simp
  have sub: "set syms \<subseteq> set tbl"
    unfolding syms_def tbl_def using sym_in_table [where fmt = fmt and 'a = 32] by simp
  have sc: "scan fmt syms i (0, 0, d) = Inr (push_bit 2 (ucast T), 10, d)" for i d
    unfolding syms_def tbl_def by (rule tail_scan(1) [OF tb(2)])
  have dr: "drain (push_bit 2 (ucast T)) 10 d = d @ head" for d
    unfolding drain_unfold tb(3) 1 ..
  from enc len sub sc dr show ?thesis
    unfolding tbl_def by blast
next
  case (2 a b)
  define T :: uint32 where "T = push_bit 8 (push_bit 8 0 OR ucast a) OR ucast b"
  define tbl where "tbl = encode_table fmt"
  define syms where "syms = [tbl ! unat (drop_bit 11 T AND 0x1F), tbl ! unat (drop_bit 6 T AND 0x1F), tbl ! unat (drop_bit 1 T AND 0x1F), tbl ! unat (push_bit 4 T AND 0x1F)]"
  note tb = tail_bytes2 [of a b, folded T_def]
  have enc: "encode_tail tbl head out n = (out @ syms, n + length syms)"
    unfolding syms_def 2 using encode_tail_unfold(2) [OF tb(1)] by simp
  have len: "length syms = (8 * length head + 4) div 5"
    unfolding syms_def 2 by simp
  have sub: "set syms \<subseteq> set tbl"
    unfolding syms_def tbl_def using sym_in_table [where fmt = fmt and 'a = 32] by simp
  have sc: "scan fmt syms i (0, 0, d) = Inr (push_bit 4 (ucast T), 20, d)" for i d
    unfolding syms_def tbl_def by (rule tail_scan(2) [OF tb(2)])
  have dr: "drain (push_bit 4 (ucast T)) 20 d = d @ head" for d
    unfolding drain_unfold tb(3) tb(4) 2 ..
  from enc len sub sc dr show ?thesis
    unfolding tbl_def by blast
next
  case (3 a b c)
  define T :: uint32 where "T = push_bit 8 (push_bit 8 (push_bit 8 0 OR ucast a) OR ucast b) OR ucast c"
  define tbl where "tbl = encode_table fmt"
  define syms where "syms = [tbl ! unat (drop_bit 19 T AND 0x1F), tbl ! unat (drop_bit 14 T AND 0x1F), tbl ! unat (drop_bit 9 T AND 0x1F), tbl ! unat (drop_bit 4 T AND 0x1F), tbl ! unat (push_bit 1 T AND 0x1F)]"
  note tb = tail_bytes3 [of a b c, folded T_def]
  have enc: "encode_tail tbl head out n = (out @ syms, n + length syms)"
    unfolding syms_def 3 using encode_tail_unfold(3) [OF tb(1)] by simp
  have len: "length syms = (8 * length head + 4) div 5"
    unfolding syms_def 3 by simp
  have sub: "set syms \<subseteq> set tbl"
    unfolding syms_def tbl_def using sym_in_table [where fmt = fmt and 'a = 32] by simp
  have sc: "scan fmt syms i (0, 0, d) = Inr (push_bit 1 (ucast T), 25, d)" for i d
    unfolding syms_def tbl_def by (rule tail_scan(3) [OF tb(2)])
  have dr: "drain (push_bit 1 (ucast T)) 25 d = d @ head" for d
    unfolding drain_unfold tb(3) tb(4) tb(5) 3 ..
  from enc len sub sc dr show ?thesis
    unfolding tbl_def by blast
next
  case (4 a b c e)
  define T :: uint32 where "T = push_bit 8 (push_bit 8 (push_bit 8 (push_bit 8 0 OR ucast a) OR ucast b) OR ucast c) OR ucast e"
  define tbl where "tbl = encode_table fmt"
  define syms where "syms = [tbl ! unat (drop_bit 27 T AND 0x1F), tbl ! unat (drop_bit 22 T AND 0x1F), tbl ! unat (drop_bit 17 T AND 0x1F), tbl ! unat (drop_bit 12 T AND 0x1F), tbl ! unat (drop_bit 7 T AND 0x1F), tbl ! unat (drop_bit 2 T AND 0x1F), tbl ! unat (push_bit 3 T AND 0x1F)]"
  note tb = tail_bytes4 [of a b c e, folded T_def]
  have enc: "encode_tail tbl head out n = (out @ syms, n + length syms)"
    unfolding syms_def 4 using encode_tail_unfold(4) [OF tb(1)] by simp
  have len: "length syms = (8 * length head + 4) div 5"
    unfolding syms_def 4 by simp
  have sub: "set syms \<subseteq> set tbl"
    unfolding syms_def tbl_def using sym_in_table [where fmt = fmt and 'a = 32] by simp
  have sc: "scan fmt syms i (0, 0, d) = Inr (push_bit 3 (ucast T), 35, d)" for i d
    unfolding syms_def tbl_def by (rule tail_scan(4))
  have dr: "drain (push_bit 3 (ucast T)) 35 d = d @ head" for d
    unfolding drain_unfold tb(2) tb(3) tb(4) tb(5) 4 ..
  from enc len sub sc dr show ?thesis
    unfolding tbl_def by blast
qed

subsection \<open>The whole encoder\<close>

lemma PAD_replicate:
  assumes "k \<le> 8"
  shows "take k PAD = replicate k 0x3D"
proof -
  have p: "PAD = replicate 8 0x3D"
    by (simp add: PAD_def bytes_of_def eval_nat_numeral)
  have "take k PAD = replicate (min k 8) 0x3D"
    unfolding p by (rule take_replicate)
  with assms show ?thesis
    by (simp only: min_absorb1)
qed

lemma encode_unfold:
  assumes "src \<noteq> []"
    and "encode_bulk (encode_table fmt) src [] 0 = (head, out, outlen)"
    and "(if head \<noteq> [] then encode_tail (encode_table fmt) head out outlen else (out, outlen)) =
         (out', outlen')"
  shows "encode src fmt =
           (if fmt = Rfc \<and> outlen' mod 8 \<noteq> 0 then out' @ take (8 - outlen' mod 8) PAD else out')"
  using assms(1) unfolding encode_def Let_def assms(2) prod.case assms(3) by simp

lemma ceil_split: "(8 * (5 * q + r) + 4) div 5 = 8 * q + (8 * r + 4) div (5::nat)"
proof -
  have "8 * (5 * q + r) + 4 = (8 * r + 4) + 5 * (8 * q)"
    by simp
  then show ?thesis
    by (simp only: div_mult_self2 [of 5 "8 * r + 4" "8 * q"] add.commute)
qed

lemma encode_spec:
  "\<exists>syms acc nbits out.
     encode src fmt =
       syms @ replicate (if fmt = Rfc \<and> length syms mod 8 \<noteq> 0 then 8 - length syms mod 8 else 0) 0x3D \<and>
     length syms = (8 * length src + 4) div 5 \<and>
     set syms \<subseteq> set (encode_table fmt) \<and>
     scan fmt syms 0 (0, 0, []) = Inr (acc, nbits, out) \<and>
     drain acc nbits out = src"
proof (cases "src = []")
  case True
  then show ?thesis
    by (intro exI [of _ "[]"] exI [of _ 0]) (simp add: encode_def drain_unfold(1))
next
  case False
  define q where "q = length src div 5"
  define r where "r = length src mod 5"
  have src_len: "length src = 5 * q + r"
    by (simp add: q_def r_def)
  from encode_bulk_spec [of fmt src "[]" 0, unfolded append_Nil add_0] obtain bs where
    bulk: "encode_bulk (encode_table fmt) src [] 0 = (drop (5 * q) src, bs, length bs)"
    and lbs: "length bs = 8 * q"
    and sbs: "set bs \<subseteq> set (encode_table fmt)"
    and scb: "\<And>rest i d. scan fmt (bs @ rest) i (0, 0, d) =
                scan fmt rest (i + length bs) (0, 0, d @ take (5 * q) src)"
    unfolding q_def by blast
  let ?head = "drop (5 * q) src"
  have lh: "length ?head = r"
    unfolding length_drop by (subst src_len) simp
  have pad: "(if fmt = Rfc \<and> k mod 8 \<noteq> 0 then xs @ take (8 - k mod 8) PAD else xs) =
             xs @ replicate (if fmt = Rfc \<and> k mod 8 \<noteq> 0 then 8 - k mod 8 else 0) 0x3D"
    for k :: nat and xs
    by (simp add: PAD_replicate)
  show ?thesis
  proof (cases "?head = []")
    case True
    then have "r = 0"
      using lh by simp
    then have l5: "length src = 5 * q"
      using src_len by simp
    have enc: "encode src fmt =
        bs @ replicate (if fmt = Rfc \<and> length bs mod 8 \<noteq> 0 then 8 - length bs mod 8 else 0) 0x3D"
      using encode_unfold [OF False bulk, of bs "length bs"] True unfolding pad by simp
    have len: "length bs = (8 * length src + 4) div 5"
      unfolding lbs l5 by simp
    have "scan fmt (bs @ []) 0 (0, 0, []) = Inr (0, 0, src)"
      unfolding scb using l5 by simp
    then have sc: "scan fmt bs 0 (0, 0, []) = Inr (0, 0, src)"
      by simp
    have dr0: "drain 0 0 src = src"
      by (rule drain_unfold(1))
    show ?thesis
      apply (rule exI [of _ bs], rule exI [of _ 0], rule exI [of _ 0], rule exI [of _ src])
      apply (insert enc len sbs sc dr0)
      apply (intro conjI; assumption)
      done
  next
    case hd: False
    have "length ?head < 5"
      unfolding lh r_def by simp
    from encode_tail_spec [OF hd this, of fmt bs "length bs"] obtain ts acc nbits where
      tail: "encode_tail (encode_table fmt) ?head bs (length bs) = (bs @ ts, length bs + length ts)"
      and lts: "length ts = (8 * length ?head + 4) div 5"
      and sts: "set ts \<subseteq> set (encode_table fmt)"
      and sct: "\<And>i d. scan fmt ts i (0, 0, d) = Inr (acc, nbits, d)"
      and dr: "\<And>d. drain acc nbits d = d @ ?head"
      by blast
    have enc: "encode src fmt =
        (bs @ ts) @ replicate (if fmt = Rfc \<and> length (bs @ ts) mod 8 \<noteq> 0
                               then 8 - length (bs @ ts) mod 8 else 0) 0x3D"
      using encode_unfold [OF False bulk, of "bs @ ts" "length bs + length ts"] hd tail
      unfolding pad by simp
    have "(8 * length src + 4) div 5 = 8 * q + (8 * r + 4) div 5"
      by (subst src_len) (rule ceil_split)
    then have len: "length (bs @ ts) = (8 * length src + 4) div 5"
      unfolding length_append lbs lts lh by simp
    have sub: "set (bs @ ts) \<subseteq> set (encode_table fmt)"
      using sbs sts by simp
    have sc: "scan fmt (bs @ ts) 0 (0, 0, []) = Inr (acc, nbits, take (5 * q) src)"
      unfolding scb sct by simp
    have dr': "drain acc nbits (take (5 * q) src) = src"
      unfolding dr by simp
    show ?thesis
      apply (rule exI [of _ "bs @ ts"], rule exI [of _ acc], rule exI [of _ nbits],
          rule exI [of _ "take (5 * q) src"])
      apply (insert enc len sub sc dr')
      apply (intro conjI; assumption)
      done
  qed
qed

lemma alphabet_no_pad: "0x3D \<notin> set (encode_table fmt)" "0x2D \<notin> set (encode_table fmt)"
  using table_inverse(2,3) [where fmt = fmt]
  by (auto simp: in_set_conv_nth length_encode_table)

lemma trailing_pads_replicate:
  assumes "xs \<noteq> []" and "0x3D \<notin> set xs"
  shows "trailing_pads (xs @ replicate p 0x3D) = p"
proof -
  have "hd (rev xs) \<in> set xs"
    using assms(1) by (simp add: hd_rev)
  then have "hd (rev xs) \<noteq> 0x3D"
    using assms(2) by metis
  then have nil: "takeWhile (\<lambda>c. c = 0x3D) (rev xs) = []"
    by (simp add: takeWhile_eq_Nil_iff)
  have "takeWhile (\<lambda>c. c = 0x3D) (replicate p 0x3D @ rev xs) =
        replicate p 0x3D @ takeWhile (\<lambda>c. c = 0x3D) (rev xs)"
    by (rule takeWhile_append2) simp
  then show ?thesis
    unfolding trailing_pads_def by (simp add: nil)
qed

lemma pad_count: "((8 * n + 4) div 5) mod 8 \<in> {0, 2, 4, 5, 7 :: nat}"
proof -
  define q where "q = n div 5"
  define r where "r = n mod 5"
  have n: "n = 5 * q + r"
    by (simp add: q_def r_def)
  have "r < 5"
    by (simp add: r_def)
  then consider "r = 0" | "r = 1" | "r = 2" | "r = 3" | "r = 4"
    by arith
  then have "(8 * r + 4) div 5 \<in> {0, 2, 4, 5, 7}"
    by cases simp_all
  moreover have "((8 * n + 4) div 5) mod 8 = ((8 * r + 4) div 5) mod 8"
    by (subst n) (simp only: ceil_split mod_mult_self4)
  moreover have "(8 * r + 4) div 5 < 8"
    using \<open>r < 5\<close> by arith
  ultimately show ?thesis
    by simp
qed

subsection \<open>Separators\<close>

lemma forget_position_simps:
  "forget_position (Inr x) = Inr x"
  "forget_position (Inl (IllegalCharacter c p)) = Inl (IllegalCharacter c 0)"
  "forget_position (Inl InvalidLength) = Inl InvalidLength"
  "forget_position (Inl InvalidPadding) = Inl InvalidPadding"
  by (simp_all add: forget_position_def)

lemma scan_single_index:
  "scan fmt [c] i st = Inr st' \<Longrightarrow> scan fmt [c] j st = Inr st'"
  by (cases st) (auto simp: Let_def split: if_splits)

lemma scan_dash_skip:
  "scan Crockford (0x2D # cs) i st = scan Crockford cs (i + 1) st"
  by (cases st) simp

lemma scan_dash:
  "forget_position (scan Crockford (filter (\<lambda>c. c \<noteq> 0x2D) xs) j st) =
   forget_position (scan Crockford xs i st)"
proof (induction xs arbitrary: i j st)
  case Nil
  show ?case by simp
next
  case (Cons c cs)
  show ?case
  proof (cases "c = 0x2D")
    case True
    then show ?thesis
      using Cons.IH [of j st "i + 1"] by (simp add: scan_dash_skip del: scan.simps)
  next
    case False
    note nd = this
    show ?thesis
    proof (cases "accepted Crockford c")
      case False
      then show ?thesis
        using nd by (simp add: scan_rejects forget_position_simps del: scan.simps)
    next
      case True
      then obtain st' where s: "scan Crockford [c] i st = Inr st'"
        using scan_accepted [of "[c]" Crockford i st] by auto
      have s': "scan Crockford [c] j st = Inr st'"
        using s by (rule scan_single_index)
      have "scan Crockford (c # filter (\<lambda>c. c \<noteq> 0x2D) cs) j st =
            scan Crockford (filter (\<lambda>c. c \<noteq> 0x2D) cs) (j + 1) st'"
        by (subst scan_Cons) (simp add: s')
      moreover have "scan Crockford (c # cs) i st = scan Crockford cs (i + 1) st'"
        by (subst scan_Cons) (simp add: s)
      ultimately show ?thesis
        using nd Cons.IH [of "j + 1" st' "i + 1"] by (simp del: scan.simps)
    qed
  qed
qed

lemma forget_position_finish:
  assumes "forget_position r = forget_position r'"
  shows "forget_position (case r of Inl e \<Rightarrow> Inl e
                          | Inr (acc, nbits, out) \<Rightarrow> Inr (drain acc nbits out)) =
         forget_position (case r' of Inl e \<Rightarrow> Inl e
                          | Inr (acc, nbits, out) \<Rightarrow> Inr (drain acc nbits out))"
proof (cases r)
  case (Inr st)
  then have "r' = Inr st"
    using assms by (cases r') (auto simp: forget_position_def split: error.splits)
  with Inr show ?thesis by simp
next
  case (Inl e)
  then obtain e' where r': "r' = Inl e'"
    using assms by (cases r') (auto simp: forget_position_def split: error.splits)
  from assms show ?thesis
    unfolding Inl r' sum.case by (cases e; cases e'; simp add: forget_position_simps)
qed

lemma decode_dash:
  "forget_position (decode (filter (\<lambda>c. c \<noteq> 0x2D) src) Crockford) =
   forget_position (decode src Crockford)"
  unfolding decode_crockford by (rule forget_position_finish) (rule scan_dash)

lemma decode_rfc_select_Inl:
  "src \<noteq> [] \<Longrightarrow> select_format src Rfc = Inl e \<Longrightarrow> decode src Rfc = Inl e"
  by (simp add: decode_def)

section \<open>Round trip\<close>

text \<open>
  Claim C1: for every byte sequence and both alphabets, decoding the encoding with the
  same alphabet succeeds and returns the byte sequence itself.
\<close>

theorem decode_encode:
  "decode (encode src fmt) fmt = Inr src"
proof (cases "src = []")
  case True
  then show ?thesis
    by (simp add: encode_def decode_def)
next
  case False
  from encode_spec [of src fmt] obtain syms acc nbits out where
    enc: "encode src fmt =
       syms @ replicate (if fmt = Rfc \<and> length syms mod 8 \<noteq> 0 then 8 - length syms mod 8 else 0) 0x3D"
    and len: "length syms = (8 * length src + 4) div 5"
    and sub: "set syms \<subseteq> set (encode_table fmt)"
    and sc: "scan fmt syms 0 (0, 0, []) = Inr (acc, nbits, out)"
    and dr: "drain acc nbits out = src"
    by blast
  have "0 < length src"
    using False by simp
  then have "0 < length syms"
    unfolding len by arith
  then have ne: "syms \<noteq> []"
    by simp
  show ?thesis
  proof (cases fmt)
    case Crockford
    then have "encode src fmt = syms"
      using enc by simp
    then show ?thesis
      unfolding Crockford decode_crockford using sc dr Crockford by simp
  next
    case Rfc
    define p where "p = (if length syms mod 8 \<noteq> 0 then 8 - length syms mod 8 else 0)"
    have e: "encode src Rfc = syms @ replicate p 0x3D"
      using enc unfolding Rfc p_def by simp
    have np: "0x3D \<notin> set syms"
      using sub alphabet_no_pad(1) [of fmt] by blast
    have tp: "trailing_pads (encode src Rfc) = p"
      unfolding e by (rule trailing_pads_replicate [OF ne np])
    have m: "length syms mod 8 \<in> {0, 2, 4, 5, 7}"
      unfolding len by (rule pad_count)
    then have p: "p \<in> {0, 1, 3, 4, 6}"
      unfolding p_def by auto
    have l8: "length (encode src Rfc) mod 8 = 0"
      unfolding e p_def by (simp add: mod_simps) presburger
    have ne': "encode src Rfc \<noteq> []"
      unfolding e using ne by simp
    have tk: "take (length (encode src Rfc) - trailing_pads (encode src Rfc)) (encode src Rfc) = syms"
      unfolding tp unfolding e by simp
    show ?thesis
      unfolding Rfc decode_rfc_scan [OF ne' l8, unfolded tp, OF p, folded tp] tk
      using sc dr Rfc by simp
  qed
qed

section \<open>An illegal character in front of five pad characters\<close>

text \<open>
  Claim C2 as stated, refuted: for the input \<open>MY!=====\<close> and the standard alphabet,
  decode does not fail with IllegalCharacter for the byte \<open>!\<close> at position 3.
\<close>

theorem decode_bang_not_illegal_character:
  "decode (bytes_of ''MY!====='') Rfc \<noteq> Inl (IllegalCharacter 0x21 3)"
  by code_simp

text \<open>
  Claim C2, amended: the input \<open>MY!=====\<close> ends in five pad characters, and decode
  fails with InvalidPadding before any character is looked at; with a legal number of
  pad characters, as in \<open>MY!A====\<close>, decode fails with IllegalCharacter carrying the
  byte \<open>!\<close> and the 1-based position 3.
\<close>

theorem decode_bang_invalid_padding:
  "decode (bytes_of ''MY!====='') Rfc = Inl InvalidPadding \<and>
   decode (bytes_of ''MY!A===='') Rfc = Inl (IllegalCharacter 0x21 3)"
  by code_simp

section \<open>The padding check\<close>

text \<open>
  Claim C3: for a non-empty input of the standard alphabet whose length is a multiple
  of 8, decode fails with InvalidPadding exactly when the run of \<open>=\<close> at the end of
  the input (counted from the end backwards) is longer than 6 or its length is not one
  of 0, 1, 3, 4, 6. Nothing is asked of the other characters: the check comes before
  the scan.
\<close>

theorem decode_invalid_padding_iff:
  assumes "src \<noteq> []" and "length src mod 8 = 0"
  shows "decode src Rfc = Inl InvalidPadding \<longleftrightarrow>
           trailing_pads src > 6 \<or> trailing_pads src \<notin> {0, 1, 3, 4, 6}"
proof (cases "trailing_pads src \<in> {0, 1, 3, 4, 6}")
  case False
  then show ?thesis
    using assms by (simp add: decode_rfc)
next
  case True
  then have "decode src Rfc \<noteq> Inl InvalidPadding"
    using assms scan_not_padding [of Rfc "take (length src - trailing_pads src) src" 0 "(0, 0, [])"]
    by (auto simp add: decode_rfc split: sum.splits)
  with True show ?thesis by auto
qed

text \<open>
  The theorem at the input \<open>MZXQAA==\<close>, which ends in two pad characters.
\<close>

theorem decode_invalid_padding_iff_witness:
  "bytes_of ''MZXQAA=='' \<noteq> [] \<and> length (bytes_of ''MZXQAA=='') mod 8 = 0 \<and>
   trailing_pads (bytes_of ''MZXQAA=='') = 2 \<and>
   decode (bytes_of ''MZXQAA=='') Rfc = Inl InvalidPadding"
  using decode_invalid_padding_iff [of "bytes_of ''MZXQAA==''"]
  by (simp add: bytes_of_def trailing_pads_def)

section \<open>The length check\<close>

text \<open>
  Claim C4: a non-empty input of the standard alphabet whose length is not a multiple
  of 8 fails with InvalidLength, whatever its padding and characters are. Crockford's
  alphabet has no restriction on the length: decoding never fails with InvalidLength,
  it succeeds exactly when every character is accepted, so there are inputs of every
  length that decode, and the five characters \<open>91JP0\<close> decode to three bytes.
\<close>

theorem decode_invalid_length:
  "(src \<noteq> [] \<and> length src mod 8 \<noteq> 0 \<longrightarrow> decode src Rfc = Inl InvalidLength) \<and>
   decode src' Crockford \<noteq> Inl InvalidLength \<and>
   ((\<exists>bs. decode src' Crockford = Inr bs) \<longleftrightarrow> (\<forall>c\<in>set src'. accepted Crockford c)) \<and>
   (\<exists>bs. decode (replicate n 0x30) Crockford = Inr bs) \<and>
   decode (bytes_of ''91JP0'') Crockford = Inr [0x48, 0x65, 0x60]"
proof -
  have rfc: "decode src Rfc = Inl InvalidLength" if "src \<noteq> []" "length src mod 8 \<noteq> 0"
    using that by (rule decode_rfc_length)
  have cr: "decode src' Crockford \<noteq> Inl InvalidLength"
    using scan_not_length [of Crockford src' 0 "(0, 0, [])"]
    unfolding decode_crockford by (cases "scan Crockford src' 0 (0, 0, [])") auto
  have z: "accepted Crockford 0x30"
    by (simp add: accepted_def decode_table_def CROCKFORD_DECODE_TABLE_def)
  have any: "\<exists>bs. decode (replicate n 0x30) Crockford = Inr bs"
    unfolding decode_Inr_crockford using z by simp
  have ex: "decode (bytes_of ''91JP0'') Crockford = Inr [0x48, 0x65, 0x60]"
    by code_simp
  from rfc cr decode_Inr_crockford [of src'] any ex show ?thesis
    by blast
qed

text \<open>
  The theorem at the seven characters \<open>MY=====\<close>, at the five characters \<open>91JP0\<close>
  and at three characters \<open>0\<close>.
\<close>

theorem decode_invalid_length_witness:
  "decode (bytes_of ''MY====='') Rfc = Inl InvalidLength \<and>
   decode (bytes_of ''91JP0'') Crockford \<noteq> Inl InvalidLength \<and>
   (\<exists>bs. decode (bytes_of ''91JP0'') Crockford = Inr bs) \<and>
   (\<exists>bs. decode (replicate 3 0x30) Crockford = Inr bs) \<and>
   decode (bytes_of ''91JP0'') Crockford = Inr [0x48, 0x65, 0x60]"
proof -
  have a: "list_all (accepted Crockford) (bytes_of ''91JP0'')"
    by code_simp
  have b: "bytes_of ''MY====='' \<noteq> [] \<and> length (bytes_of ''MY====='') mod 8 \<noteq> 0"
    by (simp add: bytes_of_def)
  show ?thesis
    using decode_invalid_length [where src = "bytes_of ''MY=====''"
        and src' = "bytes_of ''91JP0''" and n = 3] a b
    by (simp add: list_all_iff)
qed

section \<open>The RFC 4648 test vectors\<close>

text \<open>
  Claim C5: encoding the test vectors of RFC 4648 with the standard alphabet gives
  \<open>f \<mapsto> MY======\<close>, \<open>fo \<mapsto> MZXQ====\<close>, \<open>foo \<mapsto> MZXW6===\<close>, \<open>foob \<mapsto> MZXW6YQ=\<close>,
  \<open>fooba \<mapsto> MZXW6YTB\<close> and \<open>foobar \<mapsto> MZXW6YTBOI======\<close>.
\<close>

theorem encode_rfc4648_vectors:
  "encode (bytes_of ''f'') Rfc = bytes_of ''MY======'' \<and>
   encode (bytes_of ''fo'') Rfc = bytes_of ''MZXQ===='' \<and>
   encode (bytes_of ''foo'') Rfc = bytes_of ''MZXW6==='' \<and>
   encode (bytes_of ''foob'') Rfc = bytes_of ''MZXW6YQ='' \<and>
   encode (bytes_of ''fooba'') Rfc = bytes_of ''MZXW6YTB'' \<and>
   encode (bytes_of ''foobar'') Rfc = bytes_of ''MZXW6YTBOI======''"
  by code_simp

section \<open>The shape of the encoder's output\<close>

text \<open>
  Claim C6: the encoder is a total function with no error result. Its output is a
  sequence of characters of the selected alphabet, followed by pad characters: the
  number of symbols is the ceiling of \<open>8 * length src / 5\<close> (the least \<open>n\<close> with
  \<open>8 * length src \<le> 5 * n\<close>); for the standard alphabet, and only when that number is not
  a multiple of 8, exactly \<open>8 - n mod 8\<close> characters \<open>=\<close> follow; Crockford's output has
  no padding. The pad character is not a symbol of either alphabet.
\<close>

theorem encode_output_shape:
  "\<exists>syms. encode src fmt =
            syms @ replicate (if fmt = Rfc \<and> length syms mod 8 \<noteq> 0
                              then 8 - length syms mod 8 else 0) 0x3D \<and>
          length syms = (8 * length src + 4) div 5 \<and>
          8 * length src \<le> 5 * length syms \<and> 5 * length syms < 8 * length src + 5 \<and>
          set syms \<subseteq> set (encode_table fmt) \<and>
          0x3D \<notin> set (encode_table fmt)"
proof -
  from encode_spec [of src fmt] obtain syms where
    enc: "encode src fmt =
       syms @ replicate (if fmt = Rfc \<and> length syms mod 8 \<noteq> 0 then 8 - length syms mod 8 else 0) 0x3D"
    and len: "length syms = (8 * length src + 4) div 5"
    and sub: "set syms \<subseteq> set (encode_table fmt)"
    by blast
  have lo: "8 * length src \<le> 5 * length syms" and hi: "5 * length syms < 8 * length src + 5"
    unfolding len by arith+
  show ?thesis
    apply (rule exI [of _ syms])
    apply (insert enc len lo hi sub alphabet_no_pad(1) [of fmt])
    apply (intro conjI; assumption)
    done
qed

section \<open>Crockford's decode table\<close>

text \<open>
  Claim C7: Crockford's decode table maps the digits to 0 .. 9 and the letters other
  than I, L, O, U, in order, to 10 .. 31; a lower-case letter has the entry of its
  upper-case letter; I, i, L and l map to 1, O and o to 0; the entries of U and u are
  the invalid marker, and a U or u met by the scan fails with IllegalCharacter (at its
  1-based position, as the source's cast to \<^verbatim>\<open>int\<close> gives it, when the characters
  before it are accepted). In particular \<open>O\<close> decodes as \<open>0\<close> does and \<open>U\<close> fails with
  IllegalCharacter.
\<close>

theorem crockford_decode_table:
  "map (\<lambda>c. CROCKFORD_DECODE_TABLE ! unat c) (bytes_of ''0123456789'') =
     [0, 1, 2, 3, 4, 5, 6, 7, 8, 9] \<and>
   map (\<lambda>c. CROCKFORD_DECODE_TABLE ! unat c) (bytes_of ''ABCDEFGHJKMNPQRSTVWXYZ'') =
     [10, 11, 12, 13, 14, 15, 16, 17, 18, 19, 20, 21, 22, 23, 24, 25, 26, 27, 28, 29, 30, 31] \<and>
   map (\<lambda>c. CROCKFORD_DECODE_TABLE ! unat c) (bytes_of ''abcdefghijklmnopqrstuvwxyz'') =
     map (\<lambda>c. CROCKFORD_DECODE_TABLE ! unat c) (bytes_of ''ABCDEFGHIJKLMNOPQRSTUVWXYZ'') \<and>
   map (\<lambda>c. CROCKFORD_DECODE_TABLE ! unat c) (bytes_of ''ILOilo'') = [1, 1, 0, 1, 1, 0] \<and>
   map (\<lambda>c. CROCKFORD_DECODE_TABLE ! unat c) (bytes_of ''Uu'') = [0xFF, 0xFF] \<and>
   ((c = 0x55 \<or> c = 0x75) \<and> (\<forall>x\<in>set xs. accepted Crockford x) \<longrightarrow>
      decode (xs @ c # ys) Crockford = Inl (IllegalCharacter c (int_cast (length xs + 1)))) \<and>
   decode (bytes_of ''O'') Crockford = decode (bytes_of ''0'') Crockford \<and>
   decode (bytes_of ''U'') Crockford = Inl (IllegalCharacter 0x55 1)"
proof -
  have tbl: "map (\<lambda>c. CROCKFORD_DECODE_TABLE ! unat c) (bytes_of ''0123456789'') =
     [0, 1, 2, 3, 4, 5, 6, 7, 8, 9] \<and>
   map (\<lambda>c. CROCKFORD_DECODE_TABLE ! unat c) (bytes_of ''ABCDEFGHJKMNPQRSTVWXYZ'') =
     [10, 11, 12, 13, 14, 15, 16, 17, 18, 19, 20, 21, 22, 23, 24, 25, 26, 27, 28, 29, 30, 31] \<and>
   map (\<lambda>c. CROCKFORD_DECODE_TABLE ! unat c) (bytes_of ''abcdefghijklmnopqrstuvwxyz'') =
     map (\<lambda>c. CROCKFORD_DECODE_TABLE ! unat c) (bytes_of ''ABCDEFGHIJKLMNOPQRSTUVWXYZ'') \<and>
   map (\<lambda>c. CROCKFORD_DECODE_TABLE ! unat c) (bytes_of ''ILOilo'') = [1, 1, 0, 1, 1, 0] \<and>
   map (\<lambda>c. CROCKFORD_DECODE_TABLE ! unat c) (bytes_of ''Uu'') = [0xFF, 0xFF]"
    by (simp add: CROCKFORD_DECODE_TABLE_def bytes_of_def)
  have dec: "decode (bytes_of ''O'') Crockford = decode (bytes_of ''0'') Crockford \<and>
   decode (bytes_of ''U'') Crockford = Inl (IllegalCharacter 0x55 1)"
    by code_simp
  have rej: "decode (xs @ c # ys) Crockford = Inl (IllegalCharacter c (int_cast (length xs + 1)))"
    if "c = 0x55 \<or> c = 0x75" "\<forall>x\<in>set xs. accepted Crockford x"
    using that not_accepted_crockford decode_crockford_illegal [of c xs ys] by blast
  from tbl dec rej show ?thesis by blast
qed

text \<open>
  The theorem at the input \<open>91u0\<close>.
\<close>

theorem crockford_decode_table_witness:
  "decode (bytes_of ''91u0'') Crockford = Inl (IllegalCharacter 0x75 3)"
proof -
  have a: "list_all (accepted Crockford) (bytes_of ''91'')"
    by code_simp
  have b: "bytes_of ''91u0'' = bytes_of ''91'' @ 0x75 # bytes_of ''0''"
    by (simp add: bytes_of_def)
  have c: "int_cast (length (bytes_of ''91'') + 1) = 3"
    by (simp add: bytes_of_def int_cast_def)
  show ?thesis
    using crockford_decode_table [where c = "0x75" and xs = "bytes_of ''91''" and ys = "bytes_of ''0''"]
      a unfolding b c by (simp add: list_all_iff)
qed

section \<open>Crockford's separator\<close>

text \<open>
  Claim C8: with Crockford's alphabet, removing every \<open>-\<close> from an input changes
  nothing but the position an IllegalCharacter error reports: the decoded bytes are the
  same, wherever the separators stand; \<open>91JP\<close> and \<open>91-jp\<close> decode alike; the encoder
  never emits \<open>-\<close>. With the standard alphabet an input containing \<open>-\<close> never decodes,
  and one that passes the length and padding checks fails with IllegalCharacter, for
  the \<open>-\<close> itself when the characters before it are legal.
\<close>

theorem crockford_dash:
  "forget_position (decode (filter (\<lambda>c. c \<noteq> 0x2D) src) Crockford) =
     forget_position (decode src Crockford) \<and>
   (decode src Crockford = Inr bs \<longleftrightarrow>
      decode (filter (\<lambda>c. c \<noteq> 0x2D) src) Crockford = Inr bs) \<and>
   decode (bytes_of ''91JP'') Crockford = decode (bytes_of ''91-jp'') Crockford \<and>
   0x2D \<notin> set (encode src' Crockford) \<and>
   (0x2D \<in> set src'' \<longrightarrow> (\<exists>e. decode src'' Rfc = Inl e)) \<and>
   (select_format (xs @ 0x2D # ys) Rfc = Inr len \<longrightarrow>
      (\<exists>c p. decode (xs @ 0x2D # ys) Rfc = Inl (IllegalCharacter c p)) \<and>
      ((\<forall>x\<in>set xs. accepted Rfc x) \<longrightarrow>
         decode (xs @ 0x2D # ys) Rfc = Inl (IllegalCharacter 0x2D (int_cast (length xs + 1)))))"
proof -
  note d = decode_dash [of src]
  have iff: "decode src Crockford = Inr bs \<longleftrightarrow>
      decode (filter (\<lambda>c. c \<noteq> 0x2D) src) Crockford = Inr bs"
  proof
    assume a: "decode src Crockford = Inr bs"
    show "decode (filter (\<lambda>c. c \<noteq> 0x2D) src) Crockford = Inr bs"
      using d unfolding a
      by (cases "decode (filter (\<lambda>c. c \<noteq> 0x2D) src) Crockford")
        (auto simp: forget_position_def split: error.splits)
  next
    assume a: "decode (filter (\<lambda>c. c \<noteq> 0x2D) src) Crockford = Inr bs"
    show "decode src Crockford = Inr bs"
      using d unfolding a
      by (cases "decode src Crockford") (auto simp: forget_position_def split: error.splits)
  qed
  have ex: "decode (bytes_of ''91JP'') Crockford = decode (bytes_of ''91-jp'') Crockford"
    by code_simp
  have emit: "0x2D \<notin> set (encode src' Crockford)"
  proof -
    from encode_spec [of src' Crockford] obtain syms where
      "encode src' Crockford = syms" "set syms \<subseteq> set (encode_table Crockford)"
      by auto
    then show ?thesis
      using alphabet_no_pad(2) [of Crockford] by auto
  qed
  have ill: "(\<exists>c p. decode (xs @ 0x2D # ys) Rfc = Inl (IllegalCharacter c p)) \<and>
      ((\<forall>x\<in>set xs. accepted Rfc x) \<longrightarrow>
         decode (xs @ 0x2D # ys) Rfc = Inl (IllegalCharacter 0x2D (int_cast (length xs + 1))))"
    if sel: "select_format (xs @ 0x2D # ys) Rfc = Inr len" for xs ys len
  proof -
    have nd: "\<exists>d\<in>set (0x2D # ys). d \<noteq> (0x3D :: uint8)"
      by simp
    show ?thesis
      using decode_rfc_illegal(2,3) [OF refl not_accepted_rfc(2) nd sel] by blast
  qed
  have never: "\<exists>e. decode src'' Rfc = Inl e" if "0x2D \<in> set src''"
  proof -
    from that obtain xs ys where s: "src'' = xs @ 0x2D # ys"
      by (auto simp: in_set_conv_decomp)
    show ?thesis
    proof (cases "select_format src'' Rfc")
      case (Inl e)
      then show ?thesis
        using decode_rfc_select_Inl [of src'' e] s by auto
    next
      case (Inr len)
      then show ?thesis
        using ill [of xs ys len] unfolding s by blast
    qed
  qed
  from d iff ex emit never ill [of xs ys len] show ?thesis
    by blast
qed

text \<open>
  The theorem at the standard-alphabet input \<open>MZ-XQAAA\<close>.
\<close>

theorem crockford_dash_witness:
  "(\<exists>e. decode (bytes_of ''MZ-XQAAA'') Rfc = Inl e) \<and>
   decode (bytes_of ''MZ-XQAAA'') Rfc = Inl (IllegalCharacter 0x2D 3)"
proof -
  have s: "bytes_of ''MZ-XQAAA'' = bytes_of ''MZ'' @ 0x2D # bytes_of ''XQAAA''"
    by (simp add: bytes_of_def)
  have m: "0x2D \<in> set (bytes_of ''MZ-XQAAA'')"
    by (simp add: bytes_of_def)
  have sel: "select_format (bytes_of ''MZ'' @ 0x2D # bytes_of ''XQAAA'') Rfc = Inr 8"
    by code_simp
  have acc: "\<forall>x\<in>set (bytes_of ''MZ''). accepted Rfc x"
    by (simp add: bytes_of_def accepted_def decode_table_def RFC_DECODE_TABLE_def)
  have pos: "int_cast (length (bytes_of ''MZ'') + 1) = 3"
    by (simp add: bytes_of_def int_cast_def)
  show ?thesis
    using crockford_dash [where src'' = "bytes_of ''MZ-XQAAA''" and xs = "bytes_of ''MZ''"
        and ys = "bytes_of ''XQAAA''" and len = 8] m sel acc
    unfolding s pos by blast
qed

section \<open>Left-over bits\<close>

text \<open>
  Claim C9: whether decode succeeds depends on the length, the padding and the legality
  of the characters only; the drain loop emits \<open>nbits div 8\<close> bytes and its output does
  not depend on the \<open>nbits mod 8\<close> bits left in the accumulator, which are dropped
  unchecked. So \<open>MZ======\<close>, whose two left-over bits are \<open>01\<close>, decodes to \<open>f\<close> as
  \<open>MY======\<close> does.
\<close>

theorem decode_discards_leftover_bits:
  "((\<exists>bs. decode src Rfc = Inr bs) \<longleftrightarrow>
      src = [] \<or>
      (length src mod 8 = 0 \<and> trailing_pads src \<in> {0, 1, 3, 4, 6} \<and>
       (\<forall>c\<in>set (take (length src - trailing_pads src) src). accepted Rfc c))) \<and>
   ((\<exists>bs. decode src' Crockford = Inr bs) \<longleftrightarrow> (\<forall>c\<in>set src'. accepted Crockford c)) \<and>
   length (drain acc nbits out) = length out + nbits div 8 \<and>
   (take_bit (nbits mod 8) x = x \<longrightarrow> drain (acc OR x) nbits out = drain acc nbits out) \<and>
   scan Rfc (bytes_of ''MZ'') 0 (0, 0, []) = Inr (0x199, 10, []) \<and>
   take_bit (10 mod 8) (0x199 :: uint64) \<noteq> 0 \<and>
   decode (bytes_of ''MZ======'') Rfc = Inr (bytes_of ''f'')"
proof -
  have ex: "scan Rfc (bytes_of ''MZ'') 0 (0, 0, []) = Inr (0x199, 10, []) \<and>
            take_bit (10 mod 8) (0x199 :: uint64) \<noteq> 0 \<and>
            decode (bytes_of ''MZ======'') Rfc = Inr (bytes_of ''f'')"
    by code_simp
  show ?thesis
    using decode_Inr_rfc [of src] decode_Inr_crockford [of src'] drain_length [of acc nbits out]
      drain_leftover [of nbits x acc out] ex
    by blast
qed

text \<open>
  The theorem at the inputs \<open>MZXW6YR=\<close> and \<open>91-jp\<close> and at an accumulator with a
  left-over bit set.
\<close>

theorem decode_discards_leftover_bits_witness:
  "(\<exists>bs. decode (bytes_of ''MZXW6YR='') Rfc = Inr bs) \<and>
   (\<exists>bs. decode (bytes_of ''91-jp'') Crockford = Inr bs) \<and>
   drain (0x198 OR 1) 10 [] = drain 0x198 10 []"
proof -
  have a: "bytes_of ''MZXW6YR='' \<noteq> [] \<and> length (bytes_of ''MZXW6YR='') mod 8 = 0 \<and>
     trailing_pads (bytes_of ''MZXW6YR='') \<in> {0, 1, 3, 4, 6} \<and>
     list_all (accepted Rfc)
       (take (length (bytes_of ''MZXW6YR='') - trailing_pads (bytes_of ''MZXW6YR=''))
          (bytes_of ''MZXW6YR=''))"
    by code_simp
  have b: "list_all (accepted Crockford) (bytes_of ''91-jp'')"
    by code_simp
  have c: "take_bit (10 mod 8) (1 :: uint64) = 1"
    by simp
  show ?thesis
    using decode_discards_leftover_bits [where src = "bytes_of ''MZXW6YR=''"
      and src' = "bytes_of ''91-jp''" and acc = "0x198" and nbits = 10 and out = "[]" and x = 1]
      a b c
    by (simp add: list_all_iff)
qed

section \<open>A pad character inside the input\<close>




end
